theory Spec2Isabelle
  imports Main "HOL-Library.Word" "HOL-Library.Sublist" "HOL-Library.AList"
begin

section \<open>vm5k: reservation planning, host distribution, network identities, topology\<close>

text \<open>
  The program is one Python 2 script (\<^verbatim>\<open>src/vm5k.py\<close>) that runs top to bottom. Each
  block of the script that computes something is embedded as a function of the variables
  the block reads, returning the variables it writes. Python exceptions and \<^verbatim>\<open>exit()\<close>
  are values of the type \<open>error\<close>; a block that can run forever returns an \<open>option\<close>,
  where \<open>None\<close> stands for a run that never ends.
\<close>

datatype error = StopIteration | KeyError | IndexError | ValueError | Exit

subsection \<open>Python string helpers\<close>

text \<open>\<^verbatim>\<open>s.split(sep)[0]\<close>: the text before the first separator (all of \<open>s\<close> when there is none).\<close>

definition split_first :: "char \<Rightarrow> string \<Rightarrow> string" where
  "split_first sep s = takeWhile (\<lambda>c. c \<noteq> sep) s"

text \<open>\<^verbatim>\<open>p in h\<close> on two strings: \<open>p\<close> occurs somewhere in \<open>h\<close> as a contiguous substring.\<close>

fun py_in :: "string \<Rightarrow> string \<Rightarrow> bool" where
  "py_in p [] = (p = [])"
| "py_in p (c # cs) = (prefix p (c # cs) \<or> py_in p cs)"

subsection \<open>Topology reconciliation (lines 437--444)\<close>

text \<open>
  \<^verbatim>\<open>tmp_hosts = map(lambda host: host.address.split('.')[0], hosts)\<close>. A host is
  represented by its address.
\<close>

definition tmp_hosts :: "string list \<Rightarrow> string list" where
  "tmp_hosts hosts = map (split_first CHR ''.'') hosts"

text \<open>
  The loop over \<^verbatim>\<open>placement.findall('.//host')\<close>. The placement is represented by the list
  of the \<^verbatim>\<open>id\<close> attributes of its host elements in document order; the loop returns the
  list of the attributes after the loop together with the remaining \<^verbatim>\<open>tmp_hosts\<close>.
  \<^verbatim>\<open>tmp[0]\<close> raises IndexError when no candidate is left.
\<close>

fun check_hosts :: "string list \<Rightarrow> string list \<Rightarrow> error + (string list \<times> string list)" where
  "check_hosts tmp [] = Inr ([], tmp)"
| "check_hosts tmp (hid # rest) =
     (if hid \<notin> set tmp then
        (case filter (\<lambda>h. py_in (split_first CHR ''-'' hid) h) tmp of
           [] \<Rightarrow> Inl IndexError
         | t # _ \<Rightarrow>
             (case check_hosts (remove1 t tmp) rest of
                Inl e \<Rightarrow> Inl e
              | Inr (ids, tmp') \<Rightarrow> Inr (t # ids, tmp')))
      else
        (case check_hosts tmp rest of
           Inl e \<Rightarrow> Inl e
         | Inr (ids, tmp') \<Rightarrow> Inr (hid # ids, tmp')))"

definition topology_matcher :: "string list \<Rightarrow> string list \<Rightarrow> error + string list" where
  "topology_matcher hosts ids = map_sum id fst (check_hosts (tmp_hosts hosts) ids)"

subsection \<open>Dictionaries\<close>

text \<open>
  A Python dictionary with string keys is an association list with distinct keys, in the
  order in which the dictionary is iterated: \<^verbatim>\<open>d.iterkeys()\<close> is \<open>map fst d\<close>,
  \<^verbatim>\<open>d.iteritems()\<close> is \<open>d\<close>, \<^verbatim>\<open>d.has_key(k)\<close> is \<open>map_of d k \<noteq> None\<close>, \<^verbatim>\<open>d[k] = v\<close> is
  \<open>AList.update k v d\<close>, and \<^verbatim>\<open>d[k]\<close> raises KeyError on a missing key.
\<close>

type_synonym 'v dict = "(string \<times> 'v) list"

definition getitem :: "'v dict \<Rightarrow> string \<Rightarrow> error + 'v" where
  "getitem d k = (case map_of d k of None \<Rightarrow> Inl KeyError | Some v \<Rightarrow> Inr v)"

definition has_key :: "'v dict \<Rightarrow> string \<Rightarrow> bool" where
  "has_key d k = (map_of d k \<noteq> None)"

text \<open>Sequencing of steps that may raise, and of steps that may raise or never end.\<close>

definition bind_err :: "error + 'a \<Rightarrow> ('a \<Rightarrow> error + 'b) \<Rightarrow> error + 'b" where
  "bind_err m f = (case m of Inl e \<Rightarrow> Inl e | Inr x \<Rightarrow> f x)"

definition bind_run :: "(error + 'a) option \<Rightarrow> ('a \<Rightarrow> (error + 'b) option) \<Rightarrow> (error + 'b) option" where
  "bind_run m f = (case m of None \<Rightarrow> None | Some (Inl e) \<Rightarrow> Some (Inl e) | Some (Inr x) \<Rightarrow> f x)"

subsection \<open>Capacity model (lines 236--241)\<close>

record cluster_attr =
  cpu :: int
  mem :: int

text \<open>
  \<^verbatim>\<open>for cluster in clusters: clusters_attr[cluster] = {'cpu': ..., 'mem': ...}\<close>. The
  attributes come from the platform API (\<^verbatim>\<open>get_host_attributes(cluster+'-1')\<close>), which is
  the parameter \<open>host_attributes\<close>: the cpu count and the RAM in MB of the cluster's hosts.
\<close>

definition clusters_attr :: "string list \<Rightarrow> (string \<Rightarrow> cluster_attr) \<Rightarrow> cluster_attr dict" where
  "clusters_attr clusters host_attributes =
     fold (\<lambda>cluster d. AList.update cluster (host_attributes cluster) d) clusters []"

subsection \<open>Slot filtering (lines 267--287)\<close>

text \<open>
  A planning slot is the tuple \<^verbatim>\<open>(start, end, {resource: n_node})\<close>; \<open>slot_2\<close> is
  \<^verbatim>\<open>slot[2]\<close>.
\<close>

type_synonym slot = "int \<times> int \<times> int dict"

definition slot_2 :: "slot \<Rightarrow> int dict" where
  "slot_2 slot = snd (snd slot)"

text \<open>
  The inner loop over \<^verbatim>\<open>slot[2].iteritems()\<close>, with the accumulators
  \<open>(slot_ram, slot_cpu, slot_has_nodes)\<close>.
\<close>

fun slot_totals ::
  "string list \<Rightarrow> cluster_attr dict \<Rightarrow> int dict \<Rightarrow> int dict \<Rightarrow> int \<times> int \<times> bool \<Rightarrow>
   error + (int \<times> int \<times> bool)" where
  "slot_totals clusters attrs resources [] acc = Inr acc"
| "slot_totals clusters attrs resources ((resource, n_node) # items) (slot_ram, slot_cpu, slot_has_nodes) =
     bind_err
       (if resource \<in> set clusters then
          bind_err (getitem attrs resource) (\<lambda>a.
            Inr (slot_ram + n_node * mem a, slot_cpu + n_node * cpu a))
        else Inr (slot_ram, slot_cpu))
       (\<lambda>(slot_ram', slot_cpu').
          bind_err
            (if has_key resources resource then
               bind_err (getitem resources resource) (\<lambda>m. Inr (n_node < m))
             else Inr False)
            (\<lambda>too_few.
               slot_totals clusters attrs resources items
                 (slot_ram', slot_cpu', if too_few then False else slot_has_nodes)))"

text \<open>
  The outer loop runs over the copy \<^verbatim>\<open>tmp_slots\<close> and removes from
  \<^verbatim>\<open>planning.slots\<close>; \<^verbatim>\<open>list.remove\<close> deletes the first element equal to its argument.
  \<^verbatim>\<open>total_cpu/2\<close> is Python 2 division of integers: it rounds down.
\<close>

fun filter_slots ::
  "string list \<Rightarrow> cluster_attr dict \<Rightarrow> int dict \<Rightarrow> int \<Rightarrow> int \<Rightarrow> slot list \<Rightarrow> slot list \<Rightarrow>
   error + slot list" where
  "filter_slots clusters attrs resources total_mem total_cpu [] slots = Inr slots"
| "filter_slots clusters attrs resources total_mem total_cpu (slot # tmp_slots) slots =
     bind_err (slot_totals clusters attrs resources (slot_2 slot) (0, 0, True))
       (\<lambda>(slot_ram, slot_cpu, slot_has_nodes).
          filter_slots clusters attrs resources total_mem total_cpu tmp_slots
            (if total_mem > slot_ram \<or> total_cpu div 2 > slot_cpu \<or> \<not> slot_has_nodes
             then remove1 slot slots else slots))"

text \<open>The whole block: \<^verbatim>\<open>exit()\<close> when no slot is left.\<close>

definition find_slots ::
  "string list \<Rightarrow> (string \<Rightarrow> cluster_attr) \<Rightarrow> int dict \<Rightarrow> int \<Rightarrow> int \<Rightarrow> slot list \<Rightarrow>
   error + slot list" where
  "find_slots clusters host_attributes resources total_mem total_cpu slots =
     bind_err
       (filter_slots clusters (clusters_attr clusters host_attributes) resources
          total_mem total_cpu slots slots)
       (\<lambda>slots'. if length slots' = 0 then Inl Exit else Inr slots')"

text \<open>
  The RAM and the CPU count of a slot in the words of the specification: the sums, over the
  slot's resources that are clusters, of the available nodes times the cluster's attribute.
\<close>

definition spec_slot_ram :: "string list \<Rightarrow> (string \<Rightarrow> cluster_attr) \<Rightarrow> slot \<Rightarrow> int" where
  "spec_slot_ram clusters host_attributes slot =
     (\<Sum>(c, n) \<leftarrow> filter (\<lambda>(c, n). c \<in> set clusters) (slot_2 slot). n * mem (host_attributes c))"

definition spec_slot_cpu :: "string list \<Rightarrow> (string \<Rightarrow> cluster_attr) \<Rightarrow> slot \<Rightarrow> int" where
  "spec_slot_cpu clusters host_attributes slot =
     (\<Sum>(c, n) \<leftarrow> filter (\<lambda>(c, n). c \<in> set clusters) (slot_2 slot). n * cpu (host_attributes c))"

text \<open>
  The flag \<^verbatim>\<open>slot_has_nodes\<close> after the inner loop, and the test of line 282, in closed
  form: the minimum is tested for the items of the slot, as the loop of lines 273--279 runs.
\<close>

definition slot_has_nodes :: "int dict \<Rightarrow> slot \<Rightarrow> bool" where
  "slot_has_nodes resources slot =
     list_all (\<lambda>(r, n). case map_of resources r of None \<Rightarrow> True | Some m \<Rightarrow> m \<le> n) (slot_2 slot)"

definition slot_discarded ::
  "string list \<Rightarrow> (string \<Rightarrow> cluster_attr) \<Rightarrow> int dict \<Rightarrow> int \<Rightarrow> int \<Rightarrow> slot \<Rightarrow> bool" where
  "slot_discarded clusters host_attributes resources total_mem total_cpu slot =
     (total_mem > spec_slot_ram clusters host_attributes slot \<or>
      total_cpu div 2 > spec_slot_cpu clusters host_attributes slot \<or>
      \<not> slot_has_nodes resources slot)"

text \<open>
  The same in the words of the specification: the slot has its nodes when every resource
  with a declared minimum in the request offers at least that minimum. The availability of
  a resource is its count in the slot; a resource that the slot does not list offers no
  node.
\<close>

definition spec_availability :: "slot \<Rightarrow> string \<Rightarrow> int" where
  "spec_availability slot r = (case map_of (slot_2 slot) r of None \<Rightarrow> 0 | Some n \<Rightarrow> n)"

definition spec_slot_has_nodes :: "int dict \<Rightarrow> slot \<Rightarrow> bool" where
  "spec_slot_has_nodes resources slot =
     list_all (\<lambda>(r, m). m \<le> spec_availability slot r) resources"

definition spec_discard ::
  "string list \<Rightarrow> (string \<Rightarrow> cluster_attr) \<Rightarrow> int dict \<Rightarrow> int \<Rightarrow> int \<Rightarrow> slot \<Rightarrow> bool" where
  "spec_discard clusters host_attributes resources total_mem total_cpu slot =
     (total_mem > spec_slot_ram clusters host_attributes slot \<or>
      total_cpu div 2 > spec_slot_cpu clusters host_attributes slot \<or>
      \<not> spec_slot_has_nodes resources slot)"

text \<open>Hosts for examples: every cluster has hosts of 8 cores and 8192 MB.\<close>

definition uniform_attr :: "string \<Rightarrow> cluster_attr" where
  "uniform_attr c = \<lparr>cpu = 8, mem = 8192\<rparr>"

subsection \<open>Host-count distribution (lines 296--325)\<close>

text \<open>
  \<^verbatim>\<open>itertools.cycle(cluster_nodes.iterkeys())\<close>: the iterator is the list of keys it
  cycles through and the number of elements it has returned so far. \<^verbatim>\<open>next()\<close> on a
  cycle over nothing raises StopIteration.
\<close>

type_synonym cycle = "string list \<times> nat"

definition cycle_next :: "cycle \<Rightarrow> error + (string \<times> cycle)" where
  "cycle_next it =
     (if fst it = [] then Inl StopIteration
      else Inr (fst it ! (snd it mod length (fst it)), (fst it, Suc (snd it))))"

text \<open>The variables of the distribution loop.\<close>

record dist =
  cluster_nodes :: "int dict"
  cluster :: string
  iter_cluster :: cycle
  node_ram :: int

text \<open>\<^verbatim>\<open>cluster_nodes[cluster] += 1\<close>\<close>

definition incr_nodes :: "int dict \<Rightarrow> string \<Rightarrow> error + int dict" where
  "incr_nodes d k = bind_err (getitem d k) (\<lambda>n. Inr (AList.update k (n + 1) d))"

text \<open>
  \<^verbatim>\<open>while cluster_nodes[cluster] >= chosen_slot[2][cluster]: cluster = iter_cluster.next()\<close>.
  The loop has no bound; a run that never leaves it is \<open>None\<close>.
\<close>

partial_function (option) skip_full :: "int dict \<Rightarrow> dist \<Rightarrow> (error + dist) option" where
  "skip_full avail st =
     (case getitem (cluster_nodes st) (cluster st) of
        Inl e \<Rightarrow> Some (Inl e)
      | Inr n \<Rightarrow>
          (case getitem avail (cluster st) of
             Inl e \<Rightarrow> Some (Inl e)
           | Inr a \<Rightarrow>
               if n \<ge> a then
                 (case cycle_next (iter_cluster st) of
                    Inl e \<Rightarrow> Some (Inl e)
                  | Inr cit \<Rightarrow> skip_full avail (st\<lparr>cluster := fst cit, iter_cluster := snd cit\<rparr>))
               else Some (Inr st)))"

declare skip_full.simps [code]

text \<open>The body of \<^verbatim>\<open>for i_vm in range(n_vm)\<close>.\<close>

definition place_vm :: "cluster_attr dict \<Rightarrow> int dict \<Rightarrow> int \<Rightarrow> dist \<Rightarrow> (error + dist) option" where
  "place_vm attrs avail vm_ram_size st =
     (let node_ram' = node_ram st + vm_ram_size in
      bind_run (Some (getitem attrs (cluster st))) (\<lambda>a.
        if node_ram' + vm_ram_size > mem a then
          bind_run (Some (getitem (cluster_nodes st) (cluster st))) (\<lambda>n.
          bind_run (Some (getitem avail (cluster st))) (\<lambda>av.
          bind_run (Some (if n + 1 > av then cycle_next (iter_cluster st)
                          else Inr (cluster st, iter_cluster st))) (\<lambda>cit.
          bind_run (Some (incr_nodes (cluster_nodes st) (fst cit))) (\<lambda>cn.
          bind_run (Some (cycle_next (snd cit))) (\<lambda>cit'.
            skip_full avail
              \<lparr>cluster_nodes = cn, cluster = fst cit', iter_cluster = snd cit', node_ram = 0\<rparr>)))))
        else Some (Inr (st\<lparr>node_ram := node_ram'\<rparr>))))"

text \<open>\<^verbatim>\<open>for i in range(n)\<close> with a body that does not read \<open>i\<close>.\<close>

fun for_range :: "nat \<Rightarrow> ('s \<Rightarrow> (error + 's) option) \<Rightarrow> 's \<Rightarrow> (error + 's) option" where
  "for_range 0 body st = Some (Inr st)"
| "for_range (Suc n) body st = bind_run (body st) (for_range n body)"

text \<open>
  The last loop (lines 319--325) raises every count to the requested minimum and adds the
  counts to the entry of the cluster's site in \<^verbatim>\<open>resources\<close>. \<^verbatim>\<open>get_cluster_site\<close> is a
  function of the platform API and a parameter here.
\<close>

fun floor_nodes ::
  "(string \<Rightarrow> string) \<Rightarrow> string list \<Rightarrow> int dict \<times> int dict \<Rightarrow> error + (int dict \<times> int dict)" where
  "floor_nodes get_cluster_site [] (cn, resources) = Inr (cn, resources)"
| "floor_nodes get_cluster_site (c # keys) (cn, resources) =
     bind_err
       (if has_key resources c then
          bind_err (getitem cn c) (\<lambda>n.
          bind_err (getitem resources c) (\<lambda>m. Inr (AList.update c (max n m) cn)))
        else Inr cn)
       (\<lambda>cn'.
          bind_err (getitem cn' c) (\<lambda>n'.
          bind_err
            (if has_key resources (get_cluster_site c) then
               bind_err (getitem resources (get_cluster_site c)) (\<lambda>r.
                 Inr (AList.update (get_cluster_site c) (r + n') resources))
             else Inr (AList.update (get_cluster_site c) n' resources))
            (\<lambda>resources'. floor_nodes get_cluster_site keys (cn', resources'))))"

text \<open>
  The whole block, from \<^verbatim>\<open>cluster_nodes = {}\<close> to the end of the last loop. It returns
  \<^verbatim>\<open>cluster_nodes\<close> and \<^verbatim>\<open>resources\<close>. \<open>vm_ram_size\<close> is the \<^verbatim>\<open>mem\<close> attribute of the VM
  template; \<^verbatim>\<open>range(n_vm)\<close> is empty for a negative \<open>n_vm\<close>. Python 2 does not specify the
  order in which a dictionary is iterated: \<^verbatim>\<open>cluster_nodes\<close> is iterated here in the order
  in which its keys were inserted, which is the order of the slot's items. The general
  statements below hold for every order of the slot's items, hence for every order of the
  cycle.
\<close>

definition init_cluster_nodes :: "string list \<Rightarrow> slot \<Rightarrow> int dict" where
  "init_cluster_nodes clusters chosen_slot =
     fold (\<lambda>c d. if c \<in> set clusters then AList.update c 0 d else d)
       (map fst (slot_2 chosen_slot)) []"

definition host_distribution ::
  "string list \<Rightarrow> (string \<Rightarrow> cluster_attr) \<Rightarrow> (string \<Rightarrow> string) \<Rightarrow> int dict \<Rightarrow> slot \<Rightarrow> int \<Rightarrow> int \<Rightarrow>
   (error + (int dict \<times> int dict)) option" where
  "host_distribution clusters host_attributes get_cluster_site resources chosen_slot vm_ram_size n_vm =
     (let cn0 = init_cluster_nodes clusters chosen_slot in
      bind_run (Some (cycle_next (map fst cn0, 0))) (\<lambda>cit.
      bind_run
        (for_range (nat n_vm)
           (place_vm (clusters_attr clusters host_attributes) (slot_2 chosen_slot) vm_ram_size)
           \<lparr>cluster_nodes = cn0, cluster = fst cit, iter_cluster = snd cit, node_ram = 0\<rparr>) (\<lambda>st.
      bind_run (Some (incr_nodes (cluster_nodes st) (cluster st))) (\<lambda>cn.
        Some (floor_nodes get_cluster_site (map fst cn) (cn, resources))))))"

subsection \<open>Network identities (lines 407--432)\<close>

text \<open>
  An IPv4 address of the \<^verbatim>\<open>netaddr\<close> library: its four octets. \<^verbatim>\<open>ip.words\<close> is the tuple
  of the octets as integers, addresses are ordered by their numeric value, and \<^verbatim>\<open>str(ip)\<close>
  is the dotted decimal notation.
\<close>

datatype ipaddr = IPAddress "8 word" "8 word" "8 word" "8 word"

fun words :: "ipaddr \<Rightarrow> int list" where
  "words (IPAddress a b c d) = [uint a, uint b, uint c, uint d]"

fun ip_value :: "ipaddr \<Rightarrow> nat" where
  "ip_value (IPAddress a b c d) = ((unat a * 256 + unat b) * 256 + unat c) * 256 + unat d"

definition digit_char :: "nat \<Rightarrow> char" where
  "digit_char n = ''0123456789'' ! n"

fun str_nat :: "nat \<Rightarrow> string" where
  "str_nat n = (if n < 10 then [digit_char n] else str_nat (n div 10) @ [digit_char (n mod 10)])"

declare str_nat.simps [simp del]

fun str_ip :: "ipaddr \<Rightarrow> string" where
  "str_ip (IPAddress a b c d) =
     str_nat (unat a) @ ''.'' @ str_nat (unat b) @ ''.'' @ str_nat (unat c) @ ''.'' @ str_nat (unat d)"

text \<open>
  The address filter. \<open>iter_hosts\<close> is the list that \<^verbatim>\<open>ips.iter_hosts()\<close> yields for the
  VLAN's block, a parameter; the loop appends to \<^verbatim>\<open>vm_ip\<close>.
\<close>

fun vm_ip_loop :: "string list \<Rightarrow> int \<Rightarrow> ipaddr list \<Rightarrow> ipaddr list \<Rightarrow> ipaddr list" where
  "vm_ip_loop sites kavlan_id [] vm_ip = vm_ip"
| "vm_ip_loop sites kavlan_id (ip # ips) vm_ip =
     vm_ip_loop sites kavlan_id ips
       (if words ip ! 3 \<noteq> 0 then
          (if length sites = 1 \<and> words ip ! 2 > (kavlan_id - 4) * 64 + 2 then vm_ip @ [ip]
           else if words ip ! 2 \<ge> 216 then vm_ip @ [ip]
           else vm_ip)
        else vm_ip)"

definition vm_ip :: "string list \<Rightarrow> int \<Rightarrow> ipaddr list \<Rightarrow> ipaddr list" where
  "vm_ip sites kavlan_id iter_hosts = vm_ip_loop sites kavlan_id iter_hosts []"

text \<open>\<^verbatim>\<open>xs[0:n]\<close>: a negative \<open>n\<close> counts from the end.\<close>

definition slice_to :: "'a list \<Rightarrow> int \<Rightarrow> 'a list" where
  "slice_to xs n = (if 0 \<le> n then take (nat n) xs else take (length xs - nat (- n)) xs)"

text \<open>
  The random module is the sequence \<open>rnd\<close> of the values that the successive calls of
  \<^verbatim>\<open>random.randint(0x00, 0xff)\<close> return, and the number of calls made so far. A MAC is the
  list of its six bytes; \<open>gen_mac\<close> is the list display of lines 422--425.
\<close>

type_synonym mac = "8 word list"

definition gen_mac :: "(nat \<Rightarrow> 8 word) \<Rightarrow> nat \<Rightarrow> mac \<times> nat" where
  "gen_mac rnd i = ([0x00, 0x20, 0x4e, rnd i, rnd (i + 1), rnd (i + 2)], i + 3)"

text \<open>
  \<^verbatim>\<open>while mac in macs: mac = [...]\<close>. Nothing bounds the number of rounds; a run that
  draws a used MAC for ever is \<open>None\<close>.
\<close>

partial_function (option) regenerate ::
  "(nat \<Rightarrow> 8 word) \<Rightarrow> mac list \<Rightarrow> mac \<Rightarrow> nat \<Rightarrow> (mac \<times> nat) option" where
  "regenerate rnd macs m i =
     (if m \<in> set macs then regenerate rnd macs (fst (gen_mac rnd i)) (snd (gen_mac rnd i))
      else Some (m, i))"

declare regenerate.simps [code]

text \<open>\<^verbatim>\<open>':'.join(map(lambda x: "%02x" % x, mac))\<close>\<close>

definition hex_char :: "nat \<Rightarrow> char" where
  "hex_char n = ''0123456789abcdef'' ! n"

definition hex2 :: "8 word \<Rightarrow> string" where
  "hex2 x = [hex_char (unat x div 16), hex_char (unat x mod 16)]"

fun py_join :: "string \<Rightarrow> string list \<Rightarrow> string" where
  "py_join sep [] = []"
| "py_join sep [x] = x"
| "py_join sep (x # y # ys) = x @ sep @ py_join sep (y # ys)"

definition mac_str :: "mac \<Rightarrow> string" where
  "mac_str m = py_join '':'' (map hex2 m)"

text \<open>The loop over \<^verbatim>\<open>vm_ip[0:n_vm]\<close>, with \<^verbatim>\<open>ip_mac\<close>, \<^verbatim>\<open>macs\<close> and the random state.\<close>

fun ip_mac_loop ::
  "(nat \<Rightarrow> 8 word) \<Rightarrow> ipaddr list \<Rightarrow> (string \<times> string) list \<Rightarrow> mac list \<Rightarrow> nat \<Rightarrow>
   ((string \<times> string) list \<times> mac list \<times> nat) option" where
  "ip_mac_loop rnd [] ip_mac macs i = Some (ip_mac, macs, i)"
| "ip_mac_loop rnd (ip # ips) ip_mac macs i =
     (case regenerate rnd macs (fst (gen_mac rnd i)) (snd (gen_mac rnd i)) of
        None \<Rightarrow> None
      | Some (m, i') \<Rightarrow> ip_mac_loop rnd ips (ip_mac @ [(str_ip ip, mac_str m)]) (macs @ [m]) i')"

text \<open>
  The whole block. \<^verbatim>\<open>min_ip = vm_ip[0]\<close> raises IndexError on an empty pool. The result is
  \<^verbatim>\<open>vm_ip\<close>, \<^verbatim>\<open>ip_mac\<close> and \<^verbatim>\<open>macs\<close>.
\<close>

definition network_identity ::
  "(nat \<Rightarrow> 8 word) \<Rightarrow> ipaddr list \<Rightarrow> string list \<Rightarrow> int \<Rightarrow> int \<Rightarrow>
   (error + (ipaddr list \<times> (string \<times> string) list \<times> mac list)) option" where
  "network_identity rnd iter_hosts sites kavlan_id n_vm =
     (let pool = vm_ip sites kavlan_id iter_hosts in
      if pool = [] then Some (Inl IndexError)
      else
        (case ip_mac_loop rnd (slice_to pool n_vm) [] [] 0 of
           None \<Rightarrow> None
         | Some (ip_mac, macs, i) \<Rightarrow> Some (Inr (pool, ip_mac, macs))))"

text \<open>
  The assumption on the random source under which the allocator is shown to return: from
  every point on, the source eventually draws a MAC outside any list of fewer than \<open>n\<close>
  MACs.
\<close>

definition fresh_within :: "(nat \<Rightarrow> 8 word) \<Rightarrow> nat \<Rightarrow> bool" where
  "fresh_within rnd n =
     (\<forall>i macs. length macs < n \<longrightarrow> (\<exists>k. fst (gen_mac rnd (i + 3 * k)) \<notin> set macs))"

text \<open>A random source for examples: every byte is drawn six times in a row, so every MAC comes twice.\<close>

definition twice_rnd :: "nat \<Rightarrow> 8 word" where
  "twice_rnd i = of_nat (i div 6)"

subsection \<open>DHCP configuration (lines 500--507)\<close>

text \<open>\<^verbatim>\<open>min\<close> and \<^verbatim>\<open>max\<close> of a list of addresses; ValueError on the empty list.\<close>

definition py_min :: "ipaddr list \<Rightarrow> error + ipaddr" where
  "py_min xs = (case xs of [] \<Rightarrow> Inl ValueError
     | x # rest \<Rightarrow> Inr (fold (\<lambda>y m. if ip_value y < ip_value m then y else m) rest x))"

definition py_max :: "ipaddr list \<Rightarrow> error + ipaddr" where
  "py_max xs = (case xs of [] \<Rightarrow> Inl ValueError
     | x # rest \<Rightarrow> Inr (fold (\<lambda>y m. if ip_value y > ip_value m then y else m) rest x))"

definition dhcp_hosts :: "(string \<times> string) list \<Rightarrow> string" where
  "dhcp_hosts ip_mac =
     fold (\<lambda>(ip, mac) acc. acc @ ''dhcp-host='' @ '':'' @ mac @ '','' @ ip @ [CHR 0x0A]) ip_mac []"

text \<open>
  The three strings \<^verbatim>\<open>(dhcp_range, dhcp_router, dhcp_hosts)\<close> handed to the service node;
  \<open>netmask\<close> is \<^verbatim>\<open>str(ips.netmask)\<close>.
\<close>

definition dhcp_conf ::
  "ipaddr list \<Rightarrow> (string \<times> string) list \<Rightarrow> string \<Rightarrow> error + (string \<times> string \<times> string)" where
  "dhcp_conf pool ip_mac netmask =
     bind_err (py_min pool) (\<lambda>lo.
     bind_err (py_max pool) (\<lambda>hi.
       Inr (''dhcp-range='' @ (str_ip lo @ '','' @ str_ip hi @ '','' @ netmask) @ '',12h'' @ [CHR 0x0A],
            ''dhcp-option=option:router,'' @ str_ip hi @ [CHR 0x0A],
            dhcp_hosts ip_mac)))"

text \<open>
  The router option in the words of the specification, from the addresses issued to the
  VMs.
\<close>

definition spec_dhcp_router :: "ipaddr list \<Rightarrow> error + string" where
  "spec_dhcp_router issued =
     bind_err (py_max issued) (\<lambda>hi. Inr (''dhcp-option=option:router,'' @ str_ip hi @ [CHR 0x0A]))"

text \<open>
  Inverses of the digit tables, for the proofs that the notations of addresses and MACs
  determine the address and the MAC.
\<close>

definition digit_val :: "char \<Rightarrow> nat" where
  "digit_val c = of_char c - 48"

definition nat_of_str :: "string \<Rightarrow> nat" where
  "nat_of_str s = foldl (\<lambda>a c. 10 * a + digit_val c) 0 s"

definition hex_val :: "char \<Rightarrow> nat" where
  "hex_val c = (if of_char c < (97::nat) then of_char c - 48 else of_char c - 87)"

text \<open>
  Predicates for the statements about the distribution: every key of \<open>keys\<close> has reached
  its availability in \<open>cn\<close>; no count of a dictionary is negative; some count is at least 1.
\<close>

definition all_full :: "int dict \<Rightarrow> int dict \<Rightarrow> string list \<Rightarrow> bool" where
  "all_full avail cn keys =
     list_all (\<lambda>k. case map_of cn k of None \<Rightarrow> False
                  | Some n \<Rightarrow> (case map_of avail k of None \<Rightarrow> False | Some a \<Rightarrow> a \<le> n)) keys"



text \<open>
  The current cluster has fewer hosts in \<open>cn\<close> than the slot has nodes for it; no count of
  \<open>cn\<close> exceeds the slot's availability.
\<close>

definition room :: "int dict \<Rightarrow> int dict \<Rightarrow> string \<Rightarrow> bool" where
  "room avail cn c =
     (case map_of cn c of None \<Rightarrow> False
      | Some n \<Rightarrow> (case map_of avail c of None \<Rightarrow> False | Some a \<Rightarrow> n < a))"

definition within :: "int dict \<Rightarrow> int dict \<Rightarrow> bool" where
  "within avail cn =
     list_all (\<lambda>(k, n). case map_of avail k of None \<Rightarrow> False | Some a \<Rightarrow> n \<le> a) cn"



section \<open>Properties\<close>

subsection \<open>Slot filtering\<close>

lemma map_of_fold_update:
  "map_of (fold (\<lambda>c d. AList.update c (f c) d) cs d0) k =
     (if k \<in> set cs then Some (f k) else map_of d0 k)"
  by (induction cs arbitrary: d0) (auto simp: update_conv')

lemma map_of_clusters_attr:
  "map_of (clusters_attr clusters host_attributes) c =
     (if c \<in> set clusters then Some (host_attributes c) else None)"
  by (simp add: clusters_attr_def map_of_fold_update)

lemma slot_totals_sums:
  "slot_totals clusters (clusters_attr clusters h) resources items (ram, cp, has) =
     Inr (ram + (\<Sum>(c, n) \<leftarrow> filter (\<lambda>(c, n). c \<in> set clusters) items. n * mem (h c)),
          cp + (\<Sum>(c, n) \<leftarrow> filter (\<lambda>(c, n). c \<in> set clusters) items. n * cpu (h c)),
          has \<and> list_all (\<lambda>(r, n). case map_of resources r of None \<Rightarrow> True | Some m \<Rightarrow> m \<le> n) items)"
proof (induction items arbitrary: ram cp has)
  case Nil
  then show ?case by simp
next
  case (Cons item items)
  obtain r n where item: "item = (r, n)" by (cases item)
  show ?case
    unfolding item
    by (cases "map_of resources r")
       (auto simp: Cons.IH bind_err_def getitem_def has_key_def map_of_clusters_attr)
qed

lemma slot_totals_spec:
  "slot_totals clusters (clusters_attr clusters h) resources (slot_2 slot) (0, 0, True) =
     Inr (spec_slot_ram clusters h slot, spec_slot_cpu clusters h slot,
          slot_has_nodes resources slot)"
  by (simp add: slot_totals_sums spec_slot_ram_def spec_slot_cpu_def slot_has_nodes_def)

lemma filter_slots_filter:
  "\<forall>a \<in> set kept. \<not> slot_discarded clusters h resources total_mem total_cpu a \<Longrightarrow>
   filter_slots clusters (clusters_attr clusters h) resources total_mem total_cpu tmp (kept @ tmp) =
     Inr (kept @ filter (\<lambda>s. \<not> slot_discarded clusters h resources total_mem total_cpu s) tmp)"
proof (induction tmp arbitrary: kept)
  case Nil
  then show ?case by simp
next
  case (Cons slot tmp)
  show ?case
  proof (cases "slot_discarded clusters h resources total_mem total_cpu slot")
    case True
    with Cons.prems have "slot \<notin> set kept" by blast
    then have "remove1 slot (kept @ slot # tmp) = kept @ tmp"
      by (simp add: remove1_append)
    with True Cons.IH [OF Cons.prems] show ?thesis
      by (simp add: slot_totals_spec bind_err_def slot_discarded_def)
  next
    case False
    with Cons.prems have "\<forall>a \<in> set (kept @ [slot]). \<not> slot_discarded clusters h resources total_mem total_cpu a"
      by simp
    from Cons.IH [OF this] False show ?thesis
      by (simp add: slot_totals_spec bind_err_def slot_discarded_def)
  qed
qed

lemma find_slots_filter:
  "find_slots clusters h resources total_mem total_cpu slots =
     (if filter (\<lambda>s. \<not> slot_discarded clusters h resources total_mem total_cpu s) slots = []
      then Inl Exit
      else Inr (filter (\<lambda>s. \<not> slot_discarded clusters h resources total_mem total_cpu s) slots))"
proof -
  let ?keep = "filter (\<lambda>s. \<not> slot_discarded clusters h resources total_mem total_cpu s) slots"
  have "filter_slots clusters (clusters_attr clusters h) resources total_mem total_cpu slots ([] @ slots)
          = Inr ([] @ ?keep)"
    by (rule filter_slots_filter) simp
  then show ?thesis
    by (simp add: find_slots_def bind_err_def)
qed

lemma has_nodes_listed:
  assumes ds: "distinct (map fst (slot_2 slot))" and dr: "distinct (map fst resources)"
    and li: "\<forall>(r, m) \<in> set resources. r \<in> fst ` set (slot_2 slot) \<or> m \<le> 0"
  shows "slot_has_nodes resources slot = spec_slot_has_nodes resources slot"
proof
  assume c: "slot_has_nodes resources slot"
  show "spec_slot_has_nodes resources slot"
    unfolding spec_slot_has_nodes_def list_all_iff
  proof (intro ballI)
    fix p assume p: "p \<in> set resources"
    obtain r m where rm: "p = (r, m)" by (cases p)
    from p rm dr have mr: "map_of resources r = Some m" by simp
    show "case p of (r, m) \<Rightarrow> m \<le> spec_availability slot r"
    proof (cases "map_of (slot_2 slot) r")
      case None
      then have "r \<notin> fst ` set (slot_2 slot)" by (simp add: map_of_eq_None_iff)
      with li p rm have "m \<le> 0" by auto
      with None show ?thesis by (simp add: rm spec_availability_def)
    next
      case (Some n)
      from map_of_SomeD [OF Some] c mr have "m \<le> n"
        by (auto simp: slot_has_nodes_def list_all_iff)
      with Some show ?thesis by (simp add: rm spec_availability_def)
    qed
  qed
next
  assume s: "spec_slot_has_nodes resources slot"
  show "slot_has_nodes resources slot"
    unfolding slot_has_nodes_def list_all_iff
  proof (intro ballI)
    fix p assume p: "p \<in> set (slot_2 slot)"
    obtain r n where rn: "p = (r, n)" by (cases p)
    from p rn ds have sn: "map_of (slot_2 slot) r = Some n" by simp
    show "case p of (r, n) \<Rightarrow> (case map_of resources r of None \<Rightarrow> True | Some m \<Rightarrow> m \<le> n)"
    proof (cases "map_of resources r")
      case None
      then show ?thesis by (simp add: rn)
    next
      case (Some m)
      from map_of_SomeD [OF Some] s have "m \<le> spec_availability slot r"
        by (auto simp: spec_slot_has_nodes_def list_all_iff)
      with sn Some show ?thesis by (simp add: rn spec_availability_def)
    qed
  qed
qed

text \<open>
  C2 (amended). The slot filter keeps, in their order, exactly the slots that pass the
  test of line 282, and exits when none passes: a slot of the planning is removed if and
  only if the required memory exceeds its RAM, or the required CPU count divided by 2 (the
  division of the source, which rounds down) exceeds its CPU count, or one of the resources
  that the slot lists offers fewer nodes than its declared minimum. A requested resource
  that the slot does not list is not tested. Every slot that is left has enough RAM and
  CPU by the formulas of the specification. Where every requested resource with a positive
  minimum is listed in the slot, the test is the test of the specification.
\<close>

theorem slot_finder_discards_listed:
  "find_slots clusters h resources total_mem total_cpu slots =
     (if filter (\<lambda>s. \<not> slot_discarded clusters h resources total_mem total_cpu s) slots = []
      then Inl Exit
      else Inr (filter (\<lambda>s. \<not> slot_discarded clusters h resources total_mem total_cpu s) slots)) \<and>
   (\<forall>slots'. find_slots clusters h resources total_mem total_cpu slots = Inr slots' \<longrightarrow>
      (\<forall>slot \<in> set slots. slot \<notin> set slots' \<longleftrightarrow>
         (total_mem > spec_slot_ram clusters h slot \<or>
          total_cpu div 2 > spec_slot_cpu clusters h slot \<or>
          \<not> slot_has_nodes resources slot)) \<and>
      (\<forall>slot \<in> set slots'. total_mem \<le> spec_slot_ram clusters h slot \<and>
          total_cpu div 2 \<le> spec_slot_cpu clusters h slot \<and>
          slot_has_nodes resources slot)) \<and>
   (\<forall>slot. distinct (map fst (slot_2 slot)) \<and> distinct (map fst resources) \<and>
      (\<forall>(r, m) \<in> set resources. r \<in> fst ` set (slot_2 slot) \<or> m \<le> 0) \<longrightarrow>
        slot_has_nodes resources slot = spec_slot_has_nodes resources slot \<and>
        slot_discarded clusters h resources total_mem total_cpu slot =
          spec_discard clusters h resources total_mem total_cpu slot)"
proof -
  let ?keep = "filter (\<lambda>s. \<not> slot_discarded clusters h resources total_mem total_cpu s) slots"
  have eq: "find_slots clusters h resources total_mem total_cpu slots =
     (if ?keep = [] then Inl Exit else Inr ?keep)"
    by (rule find_slots_filter)
  have a: "\<forall>slots'. find_slots clusters h resources total_mem total_cpu slots = Inr slots' \<longrightarrow>
      (\<forall>slot \<in> set slots. slot \<notin> set slots' \<longleftrightarrow>
         (total_mem > spec_slot_ram clusters h slot \<or>
          total_cpu div 2 > spec_slot_cpu clusters h slot \<or>
          \<not> slot_has_nodes resources slot)) \<and>
      (\<forall>slot \<in> set slots'. total_mem \<le> spec_slot_ram clusters h slot \<and>
          total_cpu div 2 \<le> spec_slot_cpu clusters h slot \<and>
          slot_has_nodes resources slot)"
  proof (intro allI impI)
    fix slots'
    assume "find_slots clusters h resources total_mem total_cpu slots = Inr slots'"
    with eq have s: "slots' = ?keep" by (auto split: if_splits)
    show "(\<forall>slot \<in> set slots. slot \<notin> set slots' \<longleftrightarrow>
         (total_mem > spec_slot_ram clusters h slot \<or>
          total_cpu div 2 > spec_slot_cpu clusters h slot \<or>
          \<not> slot_has_nodes resources slot)) \<and>
      (\<forall>slot \<in> set slots'. total_mem \<le> spec_slot_ram clusters h slot \<and>
          total_cpu div 2 \<le> spec_slot_cpu clusters h slot \<and>
          slot_has_nodes resources slot)"
      unfolding s by (auto simp: slot_discarded_def)
  qed
  have b: "\<forall>slot. distinct (map fst (slot_2 slot)) \<and> distinct (map fst resources) \<and>
      (\<forall>(r, m) \<in> set resources. r \<in> fst ` set (slot_2 slot) \<or> m \<le> 0) \<longrightarrow>
        slot_has_nodes resources slot = spec_slot_has_nodes resources slot \<and>
        slot_discarded clusters h resources total_mem total_cpu slot =
          spec_discard clusters h resources total_mem total_cpu slot"
  proof (intro allI impI)
    fix slot
    assume h: "distinct (map fst (slot_2 slot)) \<and> distinct (map fst resources) \<and>
      (\<forall>(r, m) \<in> set resources. r \<in> fst ` set (slot_2 slot) \<or> m \<le> 0)"
    then have "slot_has_nodes resources slot = spec_slot_has_nodes resources slot"
      by (intro has_nodes_listed) auto
    then show "slot_has_nodes resources slot = spec_slot_has_nodes resources slot \<and>
        slot_discarded clusters h resources total_mem total_cpu slot =
          spec_discard clusters h resources total_mem total_cpu slot"
      by (simp add: slot_discarded_def spec_discard_def)
  qed
  from eq a b show ?thesis by blast
qed

theorem slot_finder_discards_listed_witness:
  "find_slots [''c1''] uniform_attr [(''c1'', 1)] 20000 8
     [(0::int, 10::int, [(''c1'', 1::int), (''kavlan'', 1)]), (10::int, 20::int, [(''c1'', 3::int), (''kavlan'', 1)])]
     = Inr [(10::int, 20::int, [(''c1'', 3::int), (''kavlan'', 1)])] \<and>
   (0::int, 10::int, [(''c1'', 1::int), (''kavlan'', 1)]) \<in>
     set [(0::int, 10::int, [(''c1'', 1::int), (''kavlan'', 1)]), (10::int, 20::int, [(''c1'', 3::int), (''kavlan'', 1)])] \<and>
   (0::int, 10::int, [(''c1'', 1::int), (''kavlan'', 1)]) \<notin> set [(10::int, 20::int, [(''c1'', 3::int), (''kavlan'', 1)])] \<and>
   spec_slot_ram [''c1''] uniform_attr (0::int, 10::int, [(''c1'', 1::int), (''kavlan'', 1)]) < 20000 \<and>
   20000 \<le> spec_slot_ram [''c1''] uniform_attr (10::int, 20::int, [(''c1'', 3::int), (''kavlan'', 1)]) \<and>
   8 div 2 \<le> spec_slot_cpu [''c1''] uniform_attr (10::int, 20::int, [(''c1'', 3::int), (''kavlan'', 1)]) \<and>
   slot_has_nodes [(''c1'', 1)] (10::int, 20::int, [(''c1'', 3::int), (''kavlan'', 1)]) \<and>
   distinct (map fst (slot_2 (10::int, 20::int, [(''c1'', 3::int), (''kavlan'', 1)]))) \<and>
   distinct (map fst [(''c1'', 1::int)]) \<and>
   ''c1'' \<in> fst ` set (slot_2 (10::int, 20::int, [(''c1'', 3::int), (''kavlan'', 1)])) \<and>
   spec_slot_has_nodes [(''c1'', 1)] (10::int, 20::int, [(''c1'', 3::int), (''kavlan'', 1)])"
proof -
  let ?s0 = "(0::int, 10::int, [(''c1'', 1::int), (''kavlan'', 1)])"
  let ?s1 = "(10::int, 20::int, [(''c1'', 3::int), (''kavlan'', 1)])"
  have r: "find_slots [''c1''] uniform_attr [(''c1'', 1)] 20000 8 [?s0, ?s1] = Inr [?s1]"
    by (simp add: find_slots_def clusters_attr_def bind_err_def getitem_def has_key_def slot_2_def
        uniform_attr_def)
  have m0: "?s0 \<in> set [?s0, ?s1]" by simp
  have m1: "?s1 \<in> set [?s1]" by simp
  have n0: "?s0 \<notin> set [?s1]" by simp
  have c: "distinct (map fst (slot_2 ?s1)) \<and> distinct (map fst [(''c1'', 1::int)]) \<and>
     ''c1'' \<in> fst ` set (slot_2 ?s1)"
    by (simp add: slot_2_def)
  then have l: "distinct (map fst (slot_2 ?s1)) \<and> distinct (map fst [(''c1'', 1::int)]) \<and>
     (\<forall>(r, m) \<in> set [(''c1'', 1::int)]. r \<in> fst ` set (slot_2 ?s1) \<or> m \<le> 0)"
    by simp
  note t = slot_finder_discards_listed
    [of "[''c1'']" uniform_attr "[(''c1'', 1)]" 20000 8 "[?s0, ?s1]"]
  from t r m1 have k: "20000 \<le> spec_slot_ram [''c1''] uniform_attr ?s1 \<and>
        8 div 2 \<le> spec_slot_cpu [''c1''] uniform_attr ?s1 \<and>
        slot_has_nodes [(''c1'', 1)] ?s1"
    by blast
  from t l have e: "slot_has_nodes [(''c1'', 1)] ?s1 = spec_slot_has_nodes [(''c1'', 1)] ?s1 \<and>
        slot_discarded [''c1''] uniform_attr [(''c1'', 1)] 20000 8 ?s1 =
          spec_discard [''c1''] uniform_attr [(''c1'', 1)] 20000 8 ?s1"
    by blast
  have lt: "spec_slot_ram [''c1''] uniform_attr ?s0 < 20000"
    by (simp add: spec_slot_ram_def slot_2_def uniform_attr_def)
  from r m0 n0 lt k c e show ?thesis by simp
qed

text \<open>
  C2 as stated fails: the request declares a minimum of three nodes for the cluster c2, the
  slot does not list c2, and the slot is kept although, by the test of the specification,
  it does not have its nodes and is to be discarded.
\<close>

theorem slot_finder_unlisted_counterexample:
  "find_slots [''c1'', ''c2''] uniform_attr [(''c1'', 0), (''c2'', 3)] 1024 1
     [(0, 10, [(''c1'', 2), (''kavlan'', 1)])]
     = Inr [(0, 10, [(''c1'', 2), (''kavlan'', 1)])] \<and>
   \<not> spec_slot_has_nodes [(''c1'', 0), (''c2'', 3)] (0, 10, [(''c1'', 2), (''kavlan'', 1)]) \<and>
   spec_discard [''c1'', ''c2''] uniform_attr [(''c1'', 0), (''c2'', 3)] 1024 1
     (0, 10, [(''c1'', 2), (''kavlan'', 1)])"
  by (simp add: find_slots_def clusters_attr_def bind_err_def getitem_def has_key_def slot_2_def
      uniform_attr_def spec_discard_def spec_slot_has_nodes_def spec_availability_def)

subsection \<open>Host-count distribution\<close>

lemma skip_full_nodes:
  assumes "skip_full avail st = Some y"
  shows "case y of Inl e \<Rightarrow> True | Inr st' \<Rightarrow> cluster_nodes st' = cluster_nodes st"
proof (rule skip_full.raw_induct
    [where P = "\<lambda>avail st y. case y of Inl e \<Rightarrow> True | Inr st' \<Rightarrow> cluster_nodes st' = cluster_nodes st",
     OF _ assms], goal_cases)
  case (1 f avail st y)
  show ?case
  proof (cases "getitem (cluster_nodes st) (cluster st)")
    case (Inl e)
    with "1"(2) show ?thesis by auto
  next
    case n: (Inr n)
    show ?thesis
    proof (cases "getitem avail (cluster st)")
      case (Inl e)
      with n "1"(2) show ?thesis by auto
    next
      case a: (Inr a)
      show ?thesis
      proof (cases "a \<le> n")
        case False
        with n a "1"(2) show ?thesis by auto
      next
        case True
        show ?thesis
        proof (cases "cycle_next (iter_cluster st)")
          case (Inl e)
          with n a True "1"(2) show ?thesis by auto
        next
          case (Inr cit)
          with n a True "1"(2)
          have "f avail (st\<lparr>cluster := fst cit, iter_cluster := snd cit\<rparr>) = Some y" by simp
          from "1"(1) [OF this] show ?thesis by (cases y) simp_all
        qed
      qed
    qed
  qed
qed

lemma skip_full_stuck:
  assumes "skip_full avail st = Some y"
  shows "\<not> (fst (iter_cluster st) \<noteq> [] \<and>
            all_full avail (cluster_nodes st) (cluster st # fst (iter_cluster st)))"
proof (rule skip_full.raw_induct
    [where P = "\<lambda>avail st y. \<not> (fst (iter_cluster st) \<noteq> [] \<and>
            all_full avail (cluster_nodes st) (cluster st # fst (iter_cluster st)))",
     OF _ assms], goal_cases)
  case (1 f avail st y)
  show ?case
  proof
    assume full: "fst (iter_cluster st) \<noteq> [] \<and>
      all_full avail (cluster_nodes st) (cluster st # fst (iter_cluster st))"
    let ?ks = "fst (iter_cluster st)"
    let ?c = "?ks ! (snd (iter_cluster st) mod length ?ks)"
    let ?st = "st\<lparr>cluster := ?c, iter_cluster := (?ks, Suc (snd (iter_cluster st)))\<rparr>"
    from full have c: "?c \<in> set ?ks" by simp
    from full have "f avail ?st = Some y"
      using "1"(2)
      by (auto simp: all_full_def getitem_def cycle_next_def split: option.splits)
    from "1"(1) [OF this] have "\<not> all_full avail (cluster_nodes st) (?c # ?ks)"
      using full by simp
    with full c show False
      by (auto simp: all_full_def list_all_iff)
  qed
qed

lemma skip_full_diverges:
  assumes "fst (iter_cluster st) \<noteq> []"
    and "all_full avail (cluster_nodes st) (cluster st # fst (iter_cluster st))"
  shows "skip_full avail st = None"
proof (cases "skip_full avail st")
  case None
  then show ?thesis .
next
  case (Some y)
  from skip_full_stuck [OF Some] assms show ?thesis by blast
qed

lemma update_entries:
  "(a, b) \<in> set (AList.update k v al) \<Longrightarrow> (a, b) \<in> set al \<or> (a, b) = (k, v)"
  by (induction al) (auto split: if_splits)















lemma within_update:
  "within avail cn \<Longrightarrow> map_of avail k = Some a \<Longrightarrow> v \<le> a \<Longrightarrow> within avail (AList.update k v cn)"
  unfolding within_def list_all_iff using update_entries by fastforce

lemma within_lookup:
  "within avail cn \<Longrightarrow> map_of cn k = Some n \<Longrightarrow> \<exists>a. map_of avail k = Some a \<and> n \<le> a"
  unfolding within_def list_all_iff by (fastforce dest: map_of_SomeD split: option.splits)

lemma skip_full_room:
  assumes "skip_full avail st = Some y"
  shows "case y of Inl e \<Rightarrow> True | Inr st' \<Rightarrow> room avail (cluster_nodes st') (cluster st')"
proof (rule skip_full.raw_induct
    [where P = "\<lambda>avail st y. case y of Inl e \<Rightarrow> True
                  | Inr st' \<Rightarrow> room avail (cluster_nodes st') (cluster st')",
     OF _ assms], goal_cases)
  case (1 f avail st y)
  show ?case
  proof (cases "getitem (cluster_nodes st) (cluster st)")
    case (Inl e)
    with "1"(2) show ?thesis by auto
  next
    case n: (Inr n)
    show ?thesis
    proof (cases "getitem avail (cluster st)")
      case (Inl e)
      with n "1"(2) show ?thesis by auto
    next
      case a: (Inr a)
      show ?thesis
      proof (cases "a \<le> n")
        case False
        with n a "1"(2) show ?thesis
          by (auto simp: room_def getitem_def split: option.splits)
      next
        case True
        show ?thesis
        proof (cases "cycle_next (iter_cluster st)")
          case (Inl e)
          with n a True "1"(2) show ?thesis by auto
        next
          case (Inr cit)
          with n a True "1"(2)
          have "f avail (st\<lparr>cluster := fst cit, iter_cluster := snd cit\<rparr>) = Some y" by simp
          from "1"(1) [OF this] show ?thesis .
        qed
      qed
    qed
  qed
qed

lemma incr_nodes_keys: "incr_nodes d k = Inr d' \<Longrightarrow> map fst d' = map fst d"
proof -
  assume a: "incr_nodes d k = Inr d'"
  then obtain n where n: "map_of d k = Some n" and d': "d' = AList.update k (n + 1) d"
    by (auto simp: incr_nodes_def bind_err_def getitem_def split: option.splits)
  from n have "k \<in> fst ` set d" by (metis domI dom_map_of_conv_image_fst)
  then show ?thesis unfolding d' by (simp add: update_keys)
qed

lemma place_vm_within:
  assumes "place_vm attrs avail vm_ram_size st = Some (Inr st')"
    and "within avail (cluster_nodes st)" and "room avail (cluster_nodes st) (cluster st)"
  shows "within avail (cluster_nodes st') \<and> room avail (cluster_nodes st') (cluster st') \<and>
         map fst (cluster_nodes st') = map fst (cluster_nodes st)"
proof -
  obtain a where a: "getitem attrs (cluster st) = Inr a"
    using assms(1) by (cases "getitem attrs (cluster st)") (auto simp: place_vm_def bind_run_def Let_def)
  show ?thesis
  proof (cases "node_ram st + vm_ram_size + vm_ram_size > mem a")
    case False
    with assms(1) a have "st' = st\<lparr>node_ram := node_ram st + vm_ram_size\<rparr>"
      by (auto simp: place_vm_def bind_run_def Let_def)
    with assms(2,3) show ?thesis by simp
  next
    case True
    from assms(3) obtain n av where
      n: "map_of (cluster_nodes st) (cluster st) = Some n" and
      av: "map_of avail (cluster st) = Some av" and lt: "n < av"
      by (auto simp: room_def split: option.splits)
    from assms(1) a True n av lt obtain cn cit' where
      cn: "incr_nodes (cluster_nodes st) (cluster st) = Inr cn" and
      sk: "skip_full avail \<lparr>cluster_nodes = cn, cluster = fst cit', iter_cluster = snd cit', node_ram = 0\<rparr>
             = Some (Inr st')"
      by (auto simp: place_vm_def bind_run_def Let_def getitem_def split: sum.splits if_splits)
    from cn n have cn_eq: "cn = AList.update (cluster st) (n + 1) (cluster_nodes st)"
      by (simp add: incr_nodes_def bind_err_def getitem_def)
    from lt have "n + 1 \<le> av" by simp
    from within_update [OF assms(2) av this] have w: "within avail cn" by (simp add: cn_eq)
    from skip_full_nodes [OF sk] have same: "cluster_nodes st' = cn" by simp
    from skip_full_room [OF sk] have "room avail (cluster_nodes st') (cluster st')" by simp
    with w same incr_nodes_keys [OF cn] show ?thesis by simp
  qed
qed

lemma for_range_within:
  "for_range n (place_vm attrs avail vm_ram_size) st = Some (Inr st') \<Longrightarrow>
   within avail (cluster_nodes st) \<Longrightarrow> room avail (cluster_nodes st) (cluster st) \<Longrightarrow>
   within avail (cluster_nodes st') \<and> room avail (cluster_nodes st') (cluster st') \<and>
   map fst (cluster_nodes st') = map fst (cluster_nodes st)"
proof (induction n arbitrary: st)
  case 0
  then show ?case by simp
next
  case (Suc n)
  from Suc.prems(1) obtain st1 where
    s1: "place_vm attrs avail vm_ram_size st = Some (Inr st1)" and
    r: "for_range n (place_vm attrs avail vm_ram_size) st1 = Some (Inr st')"
    by (auto simp: bind_run_def split: option.splits sum.splits)
  from place_vm_within [OF s1 Suc.prems(2,3)] Suc.IH [OF r] show ?case by simp
qed

lemma floor_nodes_Cons:
  assumes "floor_nodes site (c # keys) (cn, res) = Inr (cn', res')"
  shows "\<exists>cn1 v. floor_nodes site keys (cn1, AList.update (site c) v res) = Inr (cn', res') \<and>
           (map_of res c = None \<and> cn1 = cn \<or>
            (\<exists>n m. map_of cn c = Some n \<and> map_of res c = Some m \<and>
                   cn1 = AList.update c (max n m) cn))"
proof (cases "map_of res c")
  case None
  with assms show ?thesis
    by (auto simp: bind_err_def getitem_def has_key_def split: sum.splits option.splits if_splits)
next
  case (Some m)
  with assms obtain n where n: "map_of cn c = Some n"
    by (auto simp: bind_err_def getitem_def has_key_def split: sum.splits option.splits if_splits)
  from assms Some n show ?thesis
    by (auto simp: bind_err_def getitem_def has_key_def split: sum.splits option.splits if_splits)
qed

lemma floor_nodes_other:
  "floor_nodes site keys (cn, res) = Inr (cn', res') \<Longrightarrow> c \<notin> set keys \<Longrightarrow>
   map_of cn' c = map_of cn c"
proof (induction keys arbitrary: cn res)
  case Nil
  then show ?case by simp
next
  case (Cons k keys)
  from floor_nodes_Cons [OF Cons.prems(1)] obtain cn1 v where
    r: "floor_nodes site keys (cn1, AList.update (site k) v res) = Inr (cn', res')" and
    c: "map_of res k = None \<and> cn1 = cn \<or>
        (\<exists>n m. map_of cn k = Some n \<and> map_of res k = Some m \<and> cn1 = AList.update k (max n m) cn)"
    by blast
  from Cons.prems(2) have "c \<noteq> k" "c \<notin> set keys" by auto
  from Cons.IH [OF r this(2)] c \<open>c \<noteq> k\<close> show ?case
    by (auto simp: update_conv')
qed

lemma floor_nodes_within:
  "floor_nodes site keys (cn, res) = Inr (cn', res') \<Longrightarrow> within avail cn \<Longrightarrow>
   set keys \<subseteq> K \<Longrightarrow> \<forall>c \<in> K. site c \<notin> K \<Longrightarrow>
   \<forall>c \<in> K. \<forall>m a. map_of res c = Some m \<longrightarrow> map_of avail c = Some a \<longrightarrow> m \<le> a \<Longrightarrow>
   within avail cn'"
proof (induction keys arbitrary: cn res)
  case Nil
  then show ?case by simp
next
  case (Cons k keys)
  from floor_nodes_Cons [OF Cons.prems(1)] obtain cn1 v where
    r: "floor_nodes site keys (cn1, AList.update (site k) v res) = Inr (cn', res')" and
    c: "map_of res k = None \<and> cn1 = cn \<or>
        (\<exists>n m. map_of cn k = Some n \<and> map_of res k = Some m \<and> cn1 = AList.update k (max n m) cn)"
    by blast
  from Cons.prems(3) have k: "k \<in> K" and ks: "set keys \<subseteq> K" by auto
  have w: "within avail cn1"
  proof (cases "map_of res k")
    case None
    with c Cons.prems(2) show ?thesis by auto
  next
    case (Some m)
    with c obtain n where n: "map_of cn k = Some n" and cn1: "cn1 = AList.update k (max n m) cn"
      by auto
    from within_lookup [OF Cons.prems(2) n] obtain a where a: "map_of avail k = Some a" "n \<le> a"
      by blast
    from Cons.prems(5) k Some a(1) have "m \<le> a" by blast
    with a(2) have "max n m \<le> a" by simp
    from within_update [OF Cons.prems(2) a(1) this] show ?thesis by (simp add: cn1)
  qed
  have req: "\<forall>c \<in> K. \<forall>m a. map_of (AList.update (site k) v res) c = Some m \<longrightarrow>
                map_of avail c = Some a \<longrightarrow> m \<le> a"
  proof (intro ballI allI impI)
    fix c m a
    assume cK: "c \<in> K" and m: "map_of (AList.update (site k) v res) c = Some m"
      and a: "map_of avail c = Some a"
    from Cons.prems(4) k cK have "c \<noteq> site k" by blast
    with m have "map_of res c = Some m" by (simp add: update_conv')
    with Cons.prems(5) cK a show "m \<le> a" by blast
  qed
  from Cons.IH [OF r w ks Cons.prems(4) req] show ?case .
qed

lemma floor_nodes_floor:
  "floor_nodes site keys (cn, res) = Inr (cn', res') \<Longrightarrow> distinct keys \<Longrightarrow>
   set keys \<subseteq> K \<Longrightarrow> \<forall>c \<in> K. site c \<notin> K \<Longrightarrow>
   \<forall>c \<in> set keys. \<forall>m. map_of res c = Some m \<longrightarrow> (\<exists>n. map_of cn' c = Some n \<and> m \<le> n)"
proof (induction keys arbitrary: cn res)
  case Nil
  then show ?case by simp
next
  case (Cons k keys)
  from floor_nodes_Cons [OF Cons.prems(1)] obtain cn1 v where
    r: "floor_nodes site keys (cn1, AList.update (site k) v res) = Inr (cn', res')" and
    c: "map_of res k = None \<and> cn1 = cn \<or>
        (\<exists>n m. map_of cn k = Some n \<and> map_of res k = Some m \<and> cn1 = AList.update k (max n m) cn)"
    by blast
  from Cons.prems(2) have nk: "k \<notin> set keys" and d: "distinct keys" by auto
  from Cons.prems(3) have k: "k \<in> K" and ks: "set keys \<subseteq> K" by auto
  from Cons.IH [OF r d ks Cons.prems(4)]
  have ih: "\<forall>c \<in> set keys. \<forall>m. map_of (AList.update (site k) v res) c = Some m \<longrightarrow>
              (\<exists>n. map_of cn' c = Some n \<and> m \<le> n)" .
  show ?case
  proof (intro ballI allI impI)
    fix c m
    assume cin: "c \<in> set (k # keys)" and m: "map_of res c = Some m"
    show "\<exists>n. map_of cn' c = Some n \<and> m \<le> n"
    proof (cases "c = k")
      case True
      with c m obtain n where cn1: "cn1 = AList.update k (max n m) cn" by auto
      from floor_nodes_other [OF r nk] have "map_of cn' k = map_of cn1 k" .
      with cn1 True show ?thesis by (simp add: update_conv')
    next
      case False
      with cin have ck: "c \<in> set keys" by simp
      with ks Cons.prems(4) k have "c \<noteq> site k" by blast
      with m have "map_of (AList.update (site k) v res) c = Some m" by (simp add: update_conv')
      with ih ck show ?thesis by blast
    qed
  qed
qed

lemma init_fold_entries:
  "(k, v) \<in> set (fold (\<lambda>c d. if c \<in> set clusters then AList.update c 0 d else d) ks d) \<Longrightarrow>
   (k, v) \<in> set d \<or> (v = 0 \<and> k \<in> set ks \<and> k \<in> set clusters)"
proof (induction ks arbitrary: d)
  case Nil
  then show ?case by simp
next
  case (Cons c ks)
  from Cons.IH [OF Cons.prems [simplified]] show ?case
    by (auto dest: update_entries split: if_splits)
qed

lemma init_entries:
  "(k, v) \<in> set (init_cluster_nodes clusters chosen_slot) \<Longrightarrow>
   v = 0 \<and> k \<in> fst ` set (slot_2 chosen_slot) \<and> k \<in> set clusters"
  unfolding init_cluster_nodes_def by (drule init_fold_entries) auto

lemma init_fold_distinct:
  "distinct (map fst d) \<Longrightarrow>
   distinct (map fst (fold (\<lambda>c d. if c \<in> set clusters then AList.update c (0::int) d else d) ks d))"
  by (induction ks arbitrary: d) (auto simp: distinct_update)

lemma init_distinct: "distinct (map fst (init_cluster_nodes clusters chosen_slot))"
  unfolding init_cluster_nodes_def by (rule init_fold_distinct) simp

lemma init_within:
  assumes "\<forall>(c, a) \<in> set (slot_2 chosen_slot). 0 \<le> a"
  shows "within (slot_2 chosen_slot) (init_cluster_nodes clusters chosen_slot)"
  unfolding within_def list_all_iff
proof (intro ballI)
  fix p assume p: "p \<in> set (init_cluster_nodes clusters chosen_slot)"
  obtain k v where kv: "p = (k, v)" by (cases p)
  from init_entries [of k v clusters chosen_slot] p kv
  have v: "v = 0" and k: "k \<in> fst ` set (slot_2 chosen_slot)" by auto
  from k obtain a where a: "map_of (slot_2 chosen_slot) k = Some a"
    by (metis domD dom_map_of_conv_image_fst)
  from map_of_SomeD [OF a] assms have "0 \<le> a" by auto
  with a v show "case p of (k, n) \<Rightarrow>
      (case map_of (slot_2 chosen_slot) k of None \<Rightarrow> False | Some a \<Rightarrow> n \<le> a)"
    by (simp add: kv)
qed

text \<open>
  Where the distribution stays within the slot. If no availability of the slot is negative,
  the cluster on which the cycle starts has at least one available node, the requested
  minimum of every resource is within the slot's availability and no site is named like a
  cluster, then every allocation that the distribution returns gives each cluster at most
  the nodes the slot has for it, and at least its requested minimum.
\<close>

lemma host_distribution_within_availability:
  assumes r: "host_distribution clusters host_attributes get_cluster_site resources
                chosen_slot vm_ram_size n_vm = Some (Inr (cn, res))"
    and nn: "\<forall>(c, a) \<in> set (slot_2 chosen_slot). 0 \<le> a"
    and first: "\<exists>a. map_of (slot_2 chosen_slot)
                     (hd (map fst (init_cluster_nodes clusters chosen_slot))) = Some a \<and> 1 \<le> a"
    and req: "\<forall>c m a. map_of resources c = Some m \<longrightarrow> map_of (slot_2 chosen_slot) c = Some a
                \<longrightarrow> m \<le> a"
    and sites: "\<forall>c \<in> set clusters. get_cluster_site c \<notin> set clusters"
  shows "\<forall>c n. map_of cn c = Some n \<longrightarrow>
           (\<exists>a. map_of (slot_2 chosen_slot) c = Some a \<and> n \<le> a) \<and>
           (\<forall>m. map_of resources c = Some m \<longrightarrow> m \<le> n)"
proof -
  let ?avail = "slot_2 chosen_slot"
  let ?cn0 = "init_cluster_nodes clusters chosen_slot"
  let ?keys = "map fst ?cn0"
  from r obtain cit st cn1 where
    nx: "cycle_next (?keys, 0) = Inr cit" and
    loop: "for_range (nat n_vm)
       (place_vm (clusters_attr clusters host_attributes) ?avail vm_ram_size)
       \<lparr>cluster_nodes = ?cn0, cluster = fst cit, iter_cluster = snd cit, node_ram = 0\<rparr>
       = Some (Inr st)" and
    inc: "incr_nodes (cluster_nodes st) (cluster st) = Inr cn1" and
    fl: "floor_nodes get_cluster_site (map fst cn1) (cn1, resources) = Inr (cn, res)"
    by (auto simp: host_distribution_def Let_def bind_run_def split: option.splits sum.splits)
  from nx have ne: "?keys \<noteq> []" and c0: "fst cit = hd ?keys"
    by (auto simp: cycle_next_def hd_conv_nth split: if_splits)
  from ne have "hd ?keys \<in> fst ` set ?cn0" by (cases ?cn0) auto
  then obtain v where v: "map_of ?cn0 (hd ?keys) = Some v"
    by (metis domD dom_map_of_conv_image_fst)
  from init_entries [OF map_of_SomeD [OF v]] have "v = 0" by simp
  with v first have room0: "room ?avail ?cn0 (fst cit)"
    by (auto simp: room_def c0)
  from for_range_within [OF loop] init_within [OF nn] room0
  have w: "within ?avail (cluster_nodes st)" and
    rm: "room ?avail (cluster_nodes st) (cluster st)" and
    ks: "map fst (cluster_nodes st) = ?keys"
    by simp_all
  from rm obtain n a where n: "map_of (cluster_nodes st) (cluster st) = Some n" and
    a: "map_of ?avail (cluster st) = Some a" and lt: "n < a"
    by (auto simp: room_def split: option.splits)
  from inc n have cn1: "cn1 = AList.update (cluster st) (n + 1) (cluster_nodes st)"
    by (simp add: incr_nodes_def bind_err_def getitem_def)
  from lt have "n + 1 \<le> a" by simp
  from within_update [OF w a this] have w1: "within ?avail cn1" by (simp add: cn1)
  from incr_nodes_keys [OF inc] ks have k1: "map fst cn1 = ?keys" by simp
  have sub: "set ?keys \<subseteq> set clusters"
    using init_entries [of _ _ clusters chosen_slot] by fastforce
  have K: "\<forall>c \<in> set ?keys. get_cluster_site c \<notin> set ?keys"
    using sites sub by blast
  have reqK: "\<forall>c \<in> set ?keys. \<forall>m a. map_of resources c = Some m \<longrightarrow>
                map_of ?avail c = Some a \<longrightarrow> m \<le> a"
    using req by blast
  from fl have fl': "floor_nodes get_cluster_site ?keys (cn1, resources) = Inr (cn, res)"
    by (simp add: k1)
  from floor_nodes_within [OF fl' w1 subset_refl K reqK] have wf: "within ?avail cn" .
  from floor_nodes_floor [OF fl' init_distinct subset_refl K]
  have lo: "\<forall>c \<in> set ?keys. \<forall>m. map_of resources c = Some m \<longrightarrow>
              (\<exists>n. map_of cn c = Some n \<and> m \<le> n)" .
  show ?thesis
  proof (intro allI impI conjI)
    fix c n assume c: "map_of cn c = Some n"
    from within_lookup [OF wf c] show "\<exists>a. map_of ?avail c = Some a \<and> n \<le> a" .
  next
    fix c n m assume c: "map_of cn c = Some n" and m: "map_of resources c = Some m"
    have "c \<in> set ?keys"
    proof (rule ccontr)
      assume "c \<notin> set ?keys"
      from floor_nodes_other [OF fl' this] c have "map_of cn1 c = Some n" by simp
      then have "c \<in> fst ` set cn1" by (metis domI dom_map_of_conv_image_fst)
      with k1 \<open>c \<notin> set ?keys\<close> show False by (metis set_map)
    qed
    with lo m c show "m \<le> n" by fastforce
  qed
qed






















text \<open>
  C1, at a failing input. The request is for the site grenoble, with clusters edel and
  genepi; the chosen slot offers no node of edel and two of genepi, and passes the slot
  filter for one VM of 1024 MB. The distribution starts on edel, never reaches a host
  boundary, and the increment after the loop gives edel one host where the slot has none:
  the allocation exceeds the availability of the slot. The same happens, whatever the
  order in which the dictionary is iterated, for a single cluster without available nodes
  and a request for no VM. It also happens where the dictionary is iterated with genepi
  before edel, on the slot that offers no node of genepi and two of edel: that slot passes
  the slot filter as well, and genepi is given one host.
\<close>

theorem host_distribution_exceeds_availability:
  "host_distribution [''edel'', ''genepi''] (\<lambda>_. \<lparr>cpu = 8, mem = 8192\<rparr>) (\<lambda>_. ''grenoble'')
     [(''grenoble'', 0)]
     (0, 10, [(''edel'', 0), (''genepi'', 2), (''grenoble'', 2), (''kavlan'', 1)]) 1024 1
     = Some (Inr ([(''edel'', 1), (''genepi'', 0)], [(''grenoble'', 1)])) \<and>
   getitem (slot_2 (0, 10, [(''edel'', 0), (''genepi'', 2), (''grenoble'', 2), (''kavlan'', 1)]))
     ''edel'' = Inr 0 \<and>
   find_slots [''edel'', ''genepi''] (\<lambda>_. \<lparr>cpu = 8, mem = 8192\<rparr>) [(''grenoble'', 0)] 1024 1
     [(0, 10, [(''edel'', 0), (''genepi'', 2), (''grenoble'', 2), (''kavlan'', 1)])]
     = Inr [(0, 10, [(''edel'', 0), (''genepi'', 2), (''grenoble'', 2), (''kavlan'', 1)])] \<and>
   host_distribution [''edel''] (\<lambda>_. \<lparr>cpu = 8, mem = 8192\<rparr>) (\<lambda>_. ''grenoble'') [(''edel'', 0)]
     (0, 10, [(''edel'', 0), (''kavlan'', 1)]) 1024 0
     = Some (Inr ([(''edel'', 1)], [(''edel'', 0), (''grenoble'', 1)])) \<and>
   host_distribution [''edel'', ''genepi''] (\<lambda>_. \<lparr>cpu = 8, mem = 8192\<rparr>) (\<lambda>_. ''grenoble'')
     [(''grenoble'', 0)]
     (0, 10, [(''genepi'', 0), (''edel'', 2), (''grenoble'', 2), (''kavlan'', 1)]) 1024 1
     = Some (Inr ([(''genepi'', 1), (''edel'', 0)], [(''grenoble'', 1)])) \<and>
   getitem (slot_2 (0, 10, [(''genepi'', 0), (''edel'', 2), (''grenoble'', 2), (''kavlan'', 1)]))
     ''genepi'' = Inr 0 \<and>
   find_slots [''edel'', ''genepi''] (\<lambda>_. \<lparr>cpu = 8, mem = 8192\<rparr>) [(''grenoble'', 0)] 1024 1
     [(0, 10, [(''genepi'', 0), (''edel'', 2), (''grenoble'', 2), (''kavlan'', 1)])]
     = Inr [(0, 10, [(''genepi'', 0), (''edel'', 2), (''grenoble'', 2), (''kavlan'', 1)])]"
  by (simp add: host_distribution_def init_cluster_nodes_def slot_2_def bind_run_def bind_err_def
      cycle_next_def place_vm_def clusters_attr_def getitem_def has_key_def incr_nodes_def
      find_slots_def)

text \<open>
  C6, at a failing input. One cluster with one available host of 8192 MB and eight VMs of
  1024 MB: the slot passes the slot filter, the eighth VM closes the host, the only
  cluster has then reached its availability, and the loop that looks for a cluster with
  room never ends. The distribution does not return, neither a result nor an error.
\<close>

theorem host_distribution_single_cluster_never_returns:
  "host_distribution [''edel''] (\<lambda>_. \<lparr>cpu = 8, mem = 8192\<rparr>) (\<lambda>_. ''grenoble'') [(''edel'', 0)]
     (0, 10, [(''edel'', 1), (''kavlan'', 1)]) 1024 8 = None \<and>
   find_slots [''edel''] (\<lambda>_. \<lparr>cpu = 8, mem = 8192\<rparr>) [(''edel'', 0)] 8192 8
     [(0, 10, [(''edel'', 1), (''kavlan'', 1)])] = Inr [(0, 10, [(''edel'', 1), (''kavlan'', 1)])]"
  by (simp add: host_distribution_def init_cluster_nodes_def slot_2_def bind_run_def bind_err_def
      cycle_next_def place_vm_def clusters_attr_def getitem_def has_key_def incr_nodes_def
      eval_nat_numeral skip_full_diverges all_full_def find_slots_def)

subsection \<open>Network identities and DHCP configuration\<close>

lemma vm_ip_loop_filter:
  "vm_ip_loop sites kavlan_id ips acc =
     acc @ filter (\<lambda>ip. words ip ! 3 \<noteq> 0 \<and>
                      (length sites = 1 \<and> words ip ! 2 > (kavlan_id - 4) * 64 + 2 \<or> words ip ! 2 \<ge> 216)) ips"
  by (induction ips arbitrary: acc) auto

lemma vm_ip_filter:
  "vm_ip sites kavlan_id iter_hosts =
     filter (\<lambda>ip. words ip ! 3 \<noteq> 0 \<and>
                 (length sites = 1 \<and> words ip ! 2 > (kavlan_id - 4) * 64 + 2 \<or> words ip ! 2 \<ge> 216)) iter_hosts"
  by (simp add: vm_ip_def vm_ip_loop_filter)

lemma regenerate_sound:
  assumes "regenerate rnd macs m i = Some r"
  shows "fst r \<notin> set macs \<and> (fst r = m \<or> (\<exists>j. fst r = fst (gen_mac rnd j)))"
proof (rule regenerate.raw_induct
    [where P = "\<lambda>rnd macs m i r. fst r \<notin> set macs \<and> (fst r = m \<or> (\<exists>j. fst r = fst (gen_mac rnd j)))",
     OF _ assms], goal_cases)
  case (1 f rnd macs m i r)
  show ?case
  proof (cases "m \<in> set macs")
    case True
    with "1"(2) have "f rnd macs (fst (gen_mac rnd i)) (snd (gen_mac rnd i)) = Some r" by simp
    from "1"(1) [OF this] show ?thesis by blast
  next
    case False
    with "1"(2) show ?thesis by auto
  qed
qed

lemma regenerate_returns:
  "fst (gen_mac rnd (i + 3 * k)) \<notin> set macs \<Longrightarrow> \<exists>r. regenerate rnd macs m i = Some r"
proof (induction k arbitrary: m i)
  case 0
  show ?case
  proof (cases "m \<in> set macs")
    case False
    then show ?thesis by (subst regenerate.simps) simp
  next
    case True
    have "regenerate rnd macs (fst (gen_mac rnd i)) (snd (gen_mac rnd i))
            = Some (fst (gen_mac rnd i), snd (gen_mac rnd i))"
      using "0" by (subst regenerate.simps) simp
    with True show ?thesis by (subst regenerate.simps) simp
  qed
next
  case (Suc k)
  show ?case
  proof (cases "m \<in> set macs")
    case False
    then show ?thesis by (subst regenerate.simps) simp
  next
    case True
    have "fst (gen_mac rnd ((i + 3) + 3 * k)) \<notin> set macs"
      using Suc.prems by (simp add: add.assoc)
    from Suc.IH [OF this, of "fst (gen_mac rnd i)"]
    obtain r where "regenerate rnd macs (fst (gen_mac rnd i)) (i + 3) = Some r" by blast
    with True show ?thesis by (subst regenerate.simps) (simp add: gen_mac_def)
  qed
qed

lemma ip_mac_loop_sound:
  "ip_mac_loop rnd ips ip_mac macs i = Some (ip_mac', macs', i') \<Longrightarrow> distinct macs \<Longrightarrow>
   \<exists>news. length news = length ips \<and> macs' = macs @ news \<and>
          ip_mac' = ip_mac @ zip (map str_ip ips) (map mac_str news) \<and>
          distinct macs' \<and> (\<forall>m \<in> set news. \<exists>j. m = fst (gen_mac rnd j))"
proof (induction ips arbitrary: ip_mac macs i)
  case Nil
  then show ?case by simp
next
  case (Cons ip ips)
  from Cons.prems(1) obtain m j where
    g: "regenerate rnd macs (fst (gen_mac rnd i)) (snd (gen_mac rnd i)) = Some (m, j)" and
    r: "ip_mac_loop rnd ips (ip_mac @ [(str_ip ip, mac_str m)]) (macs @ [m]) j = Some (ip_mac', macs', i')"
    by (auto split: option.splits)
  from regenerate_sound [OF g] have m: "m \<notin> set macs" "\<exists>j. m = fst (gen_mac rnd j)"
    by auto
  with Cons.prems(2) have "distinct (macs @ [m])" by simp
  from Cons.IH [OF r this] obtain news where
    n: "length news = length ips" "macs' = (macs @ [m]) @ news"
       "ip_mac' = (ip_mac @ [(str_ip ip, mac_str m)]) @ zip (map str_ip ips) (map mac_str news)"
       "distinct macs'" "\<forall>m \<in> set news. \<exists>j. m = fst (gen_mac rnd j)"
    by blast
  show ?case
    by (rule exI [of _ "m # news"]) (use n m in simp)
qed

lemma ip_mac_loop_returns:
  "fresh_within rnd n \<Longrightarrow> length macs + length ips \<le> n \<Longrightarrow>
   \<exists>r. ip_mac_loop rnd ips ip_mac macs i = Some r"
proof (induction ips arbitrary: ip_mac macs i)
  case Nil
  then show ?case by simp
next
  case (Cons ip ips)
  from Cons.prems(2) have "length macs < n" by simp
  with Cons.prems(1) obtain k where "fst (gen_mac rnd ((i + 3) + 3 * k)) \<notin> set macs"
    unfolding fresh_within_def by blast
  from regenerate_returns [OF this, of "fst (gen_mac rnd i)"]
  obtain m j where g: "regenerate rnd macs (fst (gen_mac rnd i)) (snd (gen_mac rnd i)) = Some (m, j)"
    by (auto simp: gen_mac_def)
  from Cons.prems(2) have "length (macs @ [m]) + length ips \<le> n" by simp
  from Cons.IH [OF Cons.prems(1) this] g show ?case by simp
qed

lemma lt10_cases: "k < 10 \<Longrightarrow> k \<in> {0, 1, 2, 3, 4, 5, 6, 7, 8, 9::nat}"
  by auto

lemma lt16_cases: "k < 16 \<Longrightarrow> k \<in> {0, 1, 2, 3, 4, 5, 6, 7, 8, 9, 10, 11, 12, 13, 14, 15::nat}"
  by simp arith

lemma digit_val_digit_char: "k < 10 \<Longrightarrow> digit_val (digit_char k) = k"
  by (drule lt10_cases) (auto simp: digit_val_def digit_char_def)

lemma digit_char_not_dot: "k < 10 \<Longrightarrow> digit_char k \<noteq> CHR ''.''"
  by (drule lt10_cases) (auto simp: digit_char_def)

lemma hex_val_hex_char: "k < 16 \<Longrightarrow> hex_val (hex_char k) = k"
  by (drule lt16_cases) (auto simp: hex_val_def hex_char_def)

lemma nat_of_str_str_nat: "nat_of_str (str_nat n) = n"
proof (induction n rule: str_nat.induct)
  case (1 n)
  show ?case
  proof (cases "n < 10")
    case True
    then show ?thesis
      by (subst str_nat.simps) (simp add: nat_of_str_def digit_val_digit_char)
  next
    case False
    from "1" [OF False] have "nat_of_str (str_nat (n div 10)) = n div 10" .
    then have "nat_of_str (str_nat (n div 10) @ [digit_char (n mod 10)]) = 10 * (n div 10) + n mod 10"
      by (simp add: nat_of_str_def digit_val_digit_char)
    with False show ?thesis
      by (subst str_nat.simps) simp
  qed
qed

lemma str_nat_inj: "str_nat a = str_nat b \<Longrightarrow> a = b"
  using nat_of_str_str_nat by metis

lemma str_nat_no_dot: "CHR ''.'' \<notin> set (str_nat n)"
proof (induction n rule: str_nat.induct)
  case (1 n)
  show ?case
  proof (cases "n < 10")
    case True
    then show ?thesis
      using digit_char_not_dot [of n] by (subst str_nat.simps) auto
  next
    case False
    have "n mod 10 < 10" by simp
    from digit_char_not_dot [OF this] "1" [OF False] False show ?thesis
      by (subst str_nat.simps) auto
  qed
qed

lemma split_at_dot:
  "CHR ''.'' \<notin> set xs \<Longrightarrow> CHR ''.'' \<notin> set xs' \<Longrightarrow>
   xs @ CHR ''.'' # ys = xs' @ CHR ''.'' # ys' \<Longrightarrow> xs = xs' \<and> ys = ys'"
proof (induction xs arbitrary: xs')
  case Nil
  then show ?case by (cases xs') auto
next
  case (Cons x xs)
  then show ?case by (cases xs') auto
qed

lemma str_ip_inj: "str_ip p = str_ip q \<Longrightarrow> p = q"
proof -
  assume e: "str_ip p = str_ip q"
  obtain a b c d where p: "p = IPAddress a b c d" by (cases p)
  obtain a' b' c' d' where q: "q = IPAddress a' b' c' d'" by (cases q)
  from e have 1: "str_nat (unat a) @ CHR ''.'' # (str_nat (unat b) @ ''.'' @ str_nat (unat c) @ ''.'' @ str_nat (unat d))
     = str_nat (unat a') @ CHR ''.'' # (str_nat (unat b') @ ''.'' @ str_nat (unat c') @ ''.'' @ str_nat (unat d'))"
    by (simp add: p q)
  from split_at_dot [OF str_nat_no_dot str_nat_no_dot 1]
  have a: "str_nat (unat a) = str_nat (unat a')" and
    2: "str_nat (unat b) @ CHR ''.'' # (str_nat (unat c) @ ''.'' @ str_nat (unat d))
      = str_nat (unat b') @ CHR ''.'' # (str_nat (unat c') @ ''.'' @ str_nat (unat d'))"
    by simp_all
  from split_at_dot [OF str_nat_no_dot str_nat_no_dot 2]
  have b: "str_nat (unat b) = str_nat (unat b')" and
    3: "str_nat (unat c) @ CHR ''.'' # str_nat (unat d) = str_nat (unat c') @ CHR ''.'' # str_nat (unat d')"
    by simp_all
  from split_at_dot [OF str_nat_no_dot str_nat_no_dot 3]
  have c: "str_nat (unat c) = str_nat (unat c')" and d: "str_nat (unat d) = str_nat (unat d')"
    by simp_all
  from a b c d show ?thesis
    by (auto simp: p q word_unat_eq_iff dest!: str_nat_inj)
qed

lemma hex2_inj: "hex2 x = hex2 y \<Longrightarrow> x = y"
proof -
  assume e: "hex2 x = hex2 y"
  have x: "unat x < 256" and y: "unat y < 256"
    using unsigned_less [of x, where 'a = nat] unsigned_less [of y, where 'a = nat] by simp_all
  from e have "hex_val (hex_char (unat x div 16)) = hex_val (hex_char (unat y div 16))"
    and "hex_val (hex_char (unat x mod 16)) = hex_val (hex_char (unat y mod 16))"
    by (simp_all add: hex2_def)
  with x y have "unat x div 16 = unat y div 16" "unat x mod 16 = unat y mod 16"
    by (simp_all add: hex_val_hex_char)
  then have "unat x = unat y"
    by (metis div_mult_mod_eq)
  then show ?thesis by (simp add: word_unat_eq_iff)
qed

lemma py_join_hex2_inj:
  "length xs = length ys \<Longrightarrow> py_join '':'' (map hex2 xs) = py_join '':'' (map hex2 ys) \<Longrightarrow> xs = ys"
proof (induction xs ys rule: list_induct2)
  case Nil
  then show ?case by simp
next
  case (Cons x xs y ys)
  show ?case
  proof (cases xs)
    case Nil
    with Cons.hyps have "ys = []" by simp
    with Nil Cons.prems show ?thesis by (auto dest: hex2_inj)
  next
    case (Cons x' xs')
    with Cons.hyps obtain y' ys' where ys: "ys = y' # ys'" by (cases ys) auto
    from Cons.prems Cons ys
    have "hex2 x @ ('':'' @ py_join '':'' (map hex2 xs)) = hex2 y @ ('':'' @ py_join '':'' (map hex2 ys))"
      by simp
    moreover have "length (hex2 x) = length (hex2 y)" by (simp add: hex2_def)
    ultimately have "hex2 x = hex2 y" "py_join '':'' (map hex2 xs) = py_join '':'' (map hex2 ys)"
      by simp_all
    with Cons.IH show ?thesis by (auto dest: hex2_inj)
  qed
qed

lemma mac_str_inj: "length m = length m' \<Longrightarrow> mac_str m = mac_str m' \<Longrightarrow> m = m'"
  unfolding mac_str_def by (rule py_join_hex2_inj)

lemma slice_to_length: "0 \<le> n \<Longrightarrow> length (slice_to xs n) = min (nat n) (length xs)"
  by (simp add: slice_to_def)

lemma slice_to_distinct: "distinct xs \<Longrightarrow> distinct (slice_to xs n)"
  by (simp add: slice_to_def)

lemma network_identity_empty:
  "vm_ip sites kavlan_id iter_hosts = [] \<Longrightarrow>
   network_identity rnd iter_hosts sites kavlan_id n_vm = Some (Inl IndexError)"
  by (simp add: network_identity_def)

lemma network_identity_result:
  assumes "network_identity rnd iter_hosts sites kavlan_id n_vm = Some (Inr (pool, ip_mac, macs))"
  shows "pool = vm_ip sites kavlan_id iter_hosts \<and> pool \<noteq> [] \<and>
         length macs = length (slice_to pool n_vm) \<and>
         ip_mac = zip (map str_ip (slice_to pool n_vm)) (map mac_str macs) \<and>
         distinct macs \<and> (\<forall>m \<in> set macs. \<exists>j. m = fst (gen_mac rnd j))"
proof -
  from assms have p: "pool = vm_ip sites kavlan_id iter_hosts" "pool \<noteq> []"
    by (auto simp: network_identity_def Let_def split: if_splits option.splits)
  with assms obtain i where
    "ip_mac_loop rnd (slice_to pool n_vm) [] [] 0 = Some (ip_mac, macs, i)"
    by (auto simp: network_identity_def Let_def split: if_splits option.splits)
  from ip_mac_loop_sound [OF this] p show ?thesis by auto
qed

lemma network_identity_returns:
  assumes "fresh_within rnd (length (slice_to (vm_ip sites kavlan_id iter_hosts) n_vm))"
    and "vm_ip sites kavlan_id iter_hosts \<noteq> []"
  shows "\<exists>ip_mac macs. network_identity rnd iter_hosts sites kavlan_id n_vm =
           Some (Inr (vm_ip sites kavlan_id iter_hosts, ip_mac, macs))"
proof -
  let ?pool = "vm_ip sites kavlan_id iter_hosts"
  have "length ([] :: mac list) + length (slice_to ?pool n_vm) \<le> length (slice_to ?pool n_vm)"
    by simp
  from ip_mac_loop_returns [OF assms(1) this, of "[]" 0]
  obtain r where "ip_mac_loop rnd (slice_to ?pool n_vm) [] [] 0 = Some r" by blast
  with assms(2) show ?thesis
    by (cases r) (auto simp: network_identity_def Let_def)
qed

text \<open>
  C3 (amended). With an empty pool the allocator fails, with IndexError at
  \<^verbatim>\<open>vm_ip[0]\<close>, whatever the VM count. With a non-empty pool, and a random source that
  keeps producing unused MACs, it returns one pair for each address of \<^verbatim>\<open>vm_ip[0:n_vm]\<close>, in
  order: for \<open>n_vm \<ge> 0\<close> that is the minimum of \<open>n_vm\<close> and the size of the pool, so exactly
  \<open>n_vm\<close> pairs when the pool is large enough and fewer, without any failure, when it is not.
\<close>

theorem network_identity_length:
  "fresh_within rnd (length (slice_to (vm_ip sites kavlan_id iter_hosts) n_vm)) \<Longrightarrow>
   (vm_ip sites kavlan_id iter_hosts = [] \<longrightarrow>
      network_identity rnd iter_hosts sites kavlan_id n_vm = Some (Inl IndexError)) \<and>
   (vm_ip sites kavlan_id iter_hosts \<noteq> [] \<longrightarrow>
      (\<exists>ip_mac macs.
         network_identity rnd iter_hosts sites kavlan_id n_vm =
           Some (Inr (vm_ip sites kavlan_id iter_hosts, ip_mac, macs)) \<and>
         map fst ip_mac = map str_ip (slice_to (vm_ip sites kavlan_id iter_hosts) n_vm) \<and>
         (0 \<le> n_vm \<longrightarrow>
            length ip_mac = min (nat n_vm) (length (vm_ip sites kavlan_id iter_hosts)))))"
proof (intro conjI impI)
  assume "vm_ip sites kavlan_id iter_hosts = []"
  then show "network_identity rnd iter_hosts sites kavlan_id n_vm = Some (Inl IndexError)"
    by (rule network_identity_empty)
next
  let ?pool = "vm_ip sites kavlan_id iter_hosts"
  assume f: "fresh_within rnd (length (slice_to ?pool n_vm))" and ne: "?pool \<noteq> []"
  from network_identity_returns [OF f ne] obtain ip_mac macs where
    r: "network_identity rnd iter_hosts sites kavlan_id n_vm = Some (Inr (?pool, ip_mac, macs))"
    by blast
  from network_identity_result [OF r] have
    l: "length macs = length (slice_to ?pool n_vm)" and
    z: "ip_mac = zip (map str_ip (slice_to ?pool n_vm)) (map mac_str macs)"
    by simp_all
  from l z have m: "map fst ip_mac = map str_ip (slice_to ?pool n_vm)" by simp
  then have "length ip_mac = length (slice_to ?pool n_vm)"
    by (metis length_map)
  then have "0 \<le> n_vm \<longrightarrow> length ip_mac = min (nat n_vm) (length ?pool)"
    by (simp add: slice_to_length)
  with r m show "\<exists>ip_mac macs.
         network_identity rnd iter_hosts sites kavlan_id n_vm = Some (Inr (?pool, ip_mac, macs)) \<and>
         map fst ip_mac = map str_ip (slice_to ?pool n_vm) \<and>
         (0 \<le> n_vm \<longrightarrow> length ip_mac = min (nat n_vm) (length ?pool))"
    by blast
qed

text \<open>
  C4. In every result of the allocator the addresses of the pairs are pairwise different
  (the block's host addresses being enumerated without repetition), the MAC strings are
  pairwise different, and every MAC is the three bytes 00:20:4e followed by three
  consecutive bytes of the random source; the loop draws again while the MAC is among those
  already issued (\<open>regenerate\<close>). With a random source that keeps producing unused MACs and
  a non-empty pool the allocator returns such a result, for every VM count.
\<close>

theorem network_identity_unique:
  "(\<forall>pool ip_mac macs.
      network_identity rnd iter_hosts sites kavlan_id n_vm = Some (Inr (pool, ip_mac, macs)) \<longrightarrow>
        (distinct iter_hosts \<longrightarrow> distinct (map fst ip_mac)) \<and>
        distinct (map snd ip_mac) \<and>
        map snd ip_mac = map mac_str macs \<and> distinct macs \<and>
        (\<forall>m \<in> set macs. \<exists>j. m = [0x00, 0x20, 0x4e, rnd j, rnd (j + 1), rnd (j + 2)])) \<and>
   (fresh_within rnd (length (slice_to (vm_ip sites kavlan_id iter_hosts) n_vm)) \<and>
    vm_ip sites kavlan_id iter_hosts \<noteq> [] \<longrightarrow>
      (\<exists>r. network_identity rnd iter_hosts sites kavlan_id n_vm = Some (Inr r)))"
proof (rule conjI)
  show "fresh_within rnd (length (slice_to (vm_ip sites kavlan_id iter_hosts) n_vm)) \<and>
    vm_ip sites kavlan_id iter_hosts \<noteq> [] \<longrightarrow>
      (\<exists>r. network_identity rnd iter_hosts sites kavlan_id n_vm = Some (Inr r))"
    using network_identity_returns [of rnd sites kavlan_id iter_hosts n_vm] by blast
next
  show "\<forall>pool ip_mac macs.
      network_identity rnd iter_hosts sites kavlan_id n_vm = Some (Inr (pool, ip_mac, macs)) \<longrightarrow>
        (distinct iter_hosts \<longrightarrow> distinct (map fst ip_mac)) \<and>
        distinct (map snd ip_mac) \<and>
        map snd ip_mac = map mac_str macs \<and> distinct macs \<and>
        (\<forall>m \<in> set macs. \<exists>j. m = [0x00, 0x20, 0x4e, rnd j, rnd (j + 1), rnd (j + 2)])"
  proof (intro allI impI)
    fix pool ip_mac macs
    assume r: "network_identity rnd iter_hosts sites kavlan_id n_vm = Some (Inr (pool, ip_mac, macs))"
    from network_identity_result [OF r] have
      p: "pool = vm_ip sites kavlan_id iter_hosts" and
      l: "length macs = length (slice_to pool n_vm)" and
      z: "ip_mac = zip (map str_ip (slice_to pool n_vm)) (map mac_str macs)" and
      d: "distinct macs" and
      g: "\<forall>m \<in> set macs. \<exists>j. m = fst (gen_mac rnd j)"
      by simp_all
    from l z have f: "map fst ip_mac = map str_ip (slice_to pool n_vm)"
      and s: "map snd ip_mac = map mac_str macs" by simp_all
    have ips: "distinct iter_hosts \<longrightarrow> distinct (map fst ip_mac)"
    proof
      assume "distinct iter_hosts"
      then have "distinct (slice_to pool n_vm)"
        unfolding p by (intro slice_to_distinct) (simp add: vm_ip_filter)
      moreover have "inj_on str_ip (set (slice_to pool n_vm))"
        by (rule inj_onI) (rule str_ip_inj)
      ultimately show "distinct (map fst ip_mac)"
        unfolding f by (simp add: distinct_map)
    qed
    from g have six: "\<forall>m \<in> set macs. length m = 6" by (auto simp: gen_mac_def)
    have "inj_on mac_str (set macs)"
    proof (rule inj_onI)
      fix a b assume "a \<in> set macs" "b \<in> set macs" "mac_str a = mac_str b"
      with six show "a = b" by (intro mac_str_inj) auto
    qed
    with d have "distinct (map snd ip_mac)"
      unfolding s by (simp add: distinct_map)
    with ips s d g
    show "(distinct iter_hosts \<longrightarrow> distinct (map fst ip_mac)) \<and>
        distinct (map snd ip_mac) \<and>
        map snd ip_mac = map mac_str macs \<and> distinct macs \<and>
        (\<forall>m \<in> set macs. \<exists>j. m = [0x00, 0x20, 0x4e, rnd j, rnd (j + 1), rnd (j + 2)])"
      by (simp add: gen_mac_def)
  qed
qed

lemma short_list: "length xs < 2 \<Longrightarrow> x \<in> set xs \<Longrightarrow> set xs = {x}"
  by (cases xs; cases "tl xs") auto

lemma twice_rnd_fresh: "fresh_within twice_rnd 2"
  unfolding fresh_within_def
proof (intro allI impI)
  fix i :: nat and macs :: "mac list"
  assume l: "length macs < 2"
  have "(i + 6) div 6 = Suc (i div 6)" by simp
  then have d: "fst (gen_mac twice_rnd (i + 3 * 2)) \<noteq> fst (gen_mac twice_rnd (i + 3 * 0))"
    by (simp add: gen_mac_def twice_rnd_def)
  show "\<exists>k. fst (gen_mac twice_rnd (i + 3 * k)) \<notin> set macs"
  proof (cases "fst (gen_mac twice_rnd (i + 3 * 0)) \<in> set macs")
    case False
    then show ?thesis by blast
  next
    case True
    from short_list [OF l True] d have "fst (gen_mac twice_rnd (i + 3 * 2)) \<notin> set macs"
      by simp
    then show ?thesis by blast
  qed
qed

lemma pool2: "vm_ip [''rennes''] 5 [IPAddress 10 0 66 9, IPAddress 10 0 67 1, IPAddress 10 0 67 2]
   = [IPAddress 10 0 67 1, IPAddress 10 0 67 2]"
  by (simp add: vm_ip_def)

lemma demo_strs:
  "str_ip (IPAddress 10 0 67 1) = ''10.0.67.1''"
  "str_ip (IPAddress 10 0 67 2) = ''10.0.67.2''"
  "mac_str [0, 0x20, 0x4e, 0, 0, 0] = ''00:20:4e:00:00:00''"
  "mac_str [0, 0x20, 0x4e, 1, 1, 1] = ''00:20:4e:01:01:01''"
  by code_simp+

lemma demo_run:
  "network_identity twice_rnd [IPAddress 10 0 66 9, IPAddress 10 0 67 1, IPAddress 10 0 67 2]
     [''rennes''] 5 2
   = Some (Inr ([IPAddress 10 0 67 1, IPAddress 10 0 67 2],
        [(''10.0.67.1'', ''00:20:4e:00:00:00''), (''10.0.67.2'', ''00:20:4e:01:01:01'')],
        [[0, 0x20, 0x4e, 0, 0, 0], [0, 0x20, 0x4e, 1, 1, 1]]))"
  by (simp add: network_identity_def pool2 slice_to_def gen_mac_def regenerate.simps twice_rnd_def
      demo_strs del: str_ip.simps)

theorem network_identity_length_witness:
  "fresh_within twice_rnd
     (length (slice_to (vm_ip [''rennes''] 5
        [IPAddress 10 0 66 9, IPAddress 10 0 67 1, IPAddress 10 0 67 2]) 2)) \<and>
   vm_ip [''rennes''] 5 [IPAddress 10 0 66 9, IPAddress 10 0 67 1, IPAddress 10 0 67 2] \<noteq> [] \<and>
   network_identity twice_rnd [IPAddress 10 0 66 9, IPAddress 10 0 67 1, IPAddress 10 0 67 2]
     [''rennes''] 5 2
   = Some (Inr ([IPAddress 10 0 67 1, IPAddress 10 0 67 2],
        [(''10.0.67.1'', ''00:20:4e:00:00:00''), (''10.0.67.2'', ''00:20:4e:01:01:01'')],
        [[0, 0x20, 0x4e, 0, 0, 0], [0, 0x20, 0x4e, 1, 1, 1]])) \<and>
   length [(''10.0.67.1'', ''00:20:4e:00:00:00''), (''10.0.67.2'', ''00:20:4e:01:01:01'')]
     = min (nat 2) (length (vm_ip [''rennes''] 5
        [IPAddress 10 0 66 9, IPAddress 10 0 67 1, IPAddress 10 0 67 2]))"
proof -
  have f: "fresh_within twice_rnd
     (length (slice_to (vm_ip [''rennes''] 5
        [IPAddress 10 0 66 9, IPAddress 10 0 67 1, IPAddress 10 0 67 2]) 2))"
    using twice_rnd_fresh by (simp add: pool2 slice_to_def numeral_2_eq_2)
  from network_identity_length [OF f] demo_run
  have "length [(''10.0.67.1'', ''00:20:4e:00:00:00''), (''10.0.67.2'', ''00:20:4e:01:01:01'')]
     = min (nat 2) (length (vm_ip [''rennes''] 5
        [IPAddress 10 0 66 9, IPAddress 10 0 67 1, IPAddress 10 0 67 2]))"
    by (simp add: pool2)
  with f demo_run show ?thesis by (simp add: pool2)
qed

text \<open>
  C3 as stated fails: with one usable address and two VMs the allocator returns a sequence
  of one pair and no error.
\<close>

theorem network_identity_short_counterexample:
  "network_identity twice_rnd [IPAddress 10 0 66 9, IPAddress 10 0 67 1] [''rennes''] 5 2
     = Some (Inr ([IPAddress 10 0 67 1], [(''10.0.67.1'', ''00:20:4e:00:00:00'')],
                  [[0, 0x20, 0x4e, 0, 0, 0]])) \<and>
   length [(''10.0.67.1'', ''00:20:4e:00:00:00'')] < (2::nat)"
  by (simp add: network_identity_def vm_ip_def slice_to_def gen_mac_def regenerate.simps
      twice_rnd_def demo_strs del: str_ip.simps)

theorem network_identity_unique_witness:
  "distinct [IPAddress 10 0 66 9, IPAddress 10 0 67 1, IPAddress 10 0 67 2] \<and>
   fresh_within twice_rnd
     (length (slice_to (vm_ip [''rennes''] 5
        [IPAddress 10 0 66 9, IPAddress 10 0 67 1, IPAddress 10 0 67 2]) 2)) \<and>
   vm_ip [''rennes''] 5 [IPAddress 10 0 66 9, IPAddress 10 0 67 1, IPAddress 10 0 67 2] \<noteq> [] \<and>
   network_identity twice_rnd [IPAddress 10 0 66 9, IPAddress 10 0 67 1, IPAddress 10 0 67 2]
     [''rennes''] 5 2
   = Some (Inr ([IPAddress 10 0 67 1, IPAddress 10 0 67 2],
        [(''10.0.67.1'', ''00:20:4e:00:00:00''), (''10.0.67.2'', ''00:20:4e:01:01:01'')],
        [[0, 0x20, 0x4e, 0, 0, 0], [0, 0x20, 0x4e, 1, 1, 1]])) \<and>
   distinct (map fst [(''10.0.67.1'', ''00:20:4e:00:00:00''), (''10.0.67.2'', ''00:20:4e:01:01:01'')]) \<and>
   distinct (map snd [(''10.0.67.1'', ''00:20:4e:00:00:00''), (''10.0.67.2'', ''00:20:4e:01:01:01'')])"
proof -
  have d: "distinct [IPAddress 10 0 66 9, IPAddress 10 0 67 1, IPAddress 10 0 67 2]" by simp
  have f: "fresh_within twice_rnd
     (length (slice_to (vm_ip [''rennes''] 5
        [IPAddress 10 0 66 9, IPAddress 10 0 67 1, IPAddress 10 0 67 2]) 2))"
    using twice_rnd_fresh by (simp add: pool2 slice_to_def numeral_2_eq_2)
  have ne: "vm_ip [''rennes''] 5 [IPAddress 10 0 66 9, IPAddress 10 0 67 1, IPAddress 10 0 67 2] \<noteq> []"
    by (simp add: pool2)
  from network_identity_unique
    [of twice_rnd "[IPAddress 10 0 66 9, IPAddress 10 0 67 1, IPAddress 10 0 67 2]"
        "[''rennes'']" 5 2] demo_run d
  have u: "distinct (map fst [(''10.0.67.1'', ''00:20:4e:00:00:00''), (''10.0.67.2'', ''00:20:4e:01:01:01'')]) \<and>
        distinct (map snd [(''10.0.67.1'', ''00:20:4e:00:00:00''), (''10.0.67.2'', ''00:20:4e:01:01:01'')])"
    by blast
  from network_identity_unique
    [of twice_rnd "[IPAddress 10 0 66 9, IPAddress 10 0 67 1, IPAddress 10 0 67 2]"
        "[''rennes'']" 5 2] f ne
  have "\<exists>r. network_identity twice_rnd
      [IPAddress 10 0 66 9, IPAddress 10 0 67 1, IPAddress 10 0 67 2] [''rennes''] 5 2 = Some (Inr r)"
    by blast
  with u d f ne demo_run show ?thesis by blast
qed

text \<open>
  C5 (amended). The pool is the block's host addresses, in order, whose fourth octet is not
  0 and whose third octet either exceeds \<open>(kavlan_id - 4) * 64 + 2\<close>, when exactly one site
  is involved, or is at least 216: the second test also applies to a single site. For one
  site and a VLAN id up to 7 this is the rule "third octet exceeds the threshold"; for any
  other number of sites it is "third octet at least 216"; and for VLAN id 5 and one site
  every chosen address has a third octet above 66.
\<close>

theorem vm_ip_filter_rule:
  "vm_ip sites kavlan_id iter_hosts =
     filter (\<lambda>ip. words ip ! 3 \<noteq> 0 \<and>
                 (length sites = 1 \<and> words ip ! 2 > (kavlan_id - 4) * 64 + 2 \<or> words ip ! 2 \<ge> 216))
       iter_hosts \<and>
   (length sites = 1 \<and> kavlan_id \<le> 7 \<longrightarrow>
      (\<forall>ip \<in> set iter_hosts. ip \<in> set (vm_ip sites kavlan_id iter_hosts) \<longleftrightarrow>
         words ip ! 3 \<noteq> 0 \<and> words ip ! 2 > (kavlan_id - 4) * 64 + 2)) \<and>
   (length sites \<noteq> 1 \<longrightarrow>
      (\<forall>ip \<in> set iter_hosts. ip \<in> set (vm_ip sites kavlan_id iter_hosts) \<longleftrightarrow>
         words ip ! 3 \<noteq> 0 \<and> words ip ! 2 \<ge> 216)) \<and>
   (length sites = 1 \<longrightarrow> (\<forall>ip \<in> set (vm_ip sites 5 iter_hosts). words ip ! 2 > 66))"
proof (intro conjI impI ballI)
  show "vm_ip sites kavlan_id iter_hosts =
     filter (\<lambda>ip. words ip ! 3 \<noteq> 0 \<and>
                 (length sites = 1 \<and> words ip ! 2 > (kavlan_id - 4) * 64 + 2 \<or> words ip ! 2 \<ge> 216))
       iter_hosts"
    by (rule vm_ip_filter)
next
  fix ip
  assume "length sites = 1 \<and> kavlan_id \<le> 7" "ip \<in> set iter_hosts"
  then show "ip \<in> set (vm_ip sites kavlan_id iter_hosts) \<longleftrightarrow>
         words ip ! 3 \<noteq> 0 \<and> words ip ! 2 > (kavlan_id - 4) * 64 + 2"
    by (auto simp: vm_ip_filter)
next
  fix ip
  assume "length sites \<noteq> 1" "ip \<in> set iter_hosts"
  then show "ip \<in> set (vm_ip sites kavlan_id iter_hosts) \<longleftrightarrow>
         words ip ! 3 \<noteq> 0 \<and> words ip ! 2 \<ge> 216"
    by (auto simp: vm_ip_filter)
next
  fix ip
  assume "length sites = 1" "ip \<in> set (vm_ip sites 5 iter_hosts)"
  then show "words ip ! 2 > 66"
    by (auto simp: vm_ip_filter)
qed

theorem vm_ip_filter_rule_witness:
  "length [''rennes''] = 1 \<and> (5::int) \<le> 7 \<and>
   IPAddress 10 0 67 1 \<in> set [IPAddress 10 0 66 9, IPAddress 10 0 67 1, IPAddress 10 0 67 0] \<and>
   IPAddress 10 0 67 1 \<in> set (vm_ip [''rennes''] 5
      [IPAddress 10 0 66 9, IPAddress 10 0 67 1, IPAddress 10 0 67 0]) \<and>
   words (IPAddress 10 0 67 1) ! 2 > 66 \<and>
   length [''rennes'', ''nancy''] \<noteq> 1 \<and>
   IPAddress 10 0 216 1 \<in> set [IPAddress 10 0 215 1, IPAddress 10 0 216 1] \<and>
   IPAddress 10 0 216 1 \<in> set (vm_ip [''rennes'', ''nancy''] 5 [IPAddress 10 0 215 1, IPAddress 10 0 216 1]) \<and>
   words (IPAddress 10 0 216 1) ! 2 \<ge> 216"
proof -
  have a: "length [''rennes''] = 1 \<and> (5::int) \<le> 7" by simp
  have b: "IPAddress 10 0 67 1 \<in> set [IPAddress 10 0 66 9, IPAddress 10 0 67 1, IPAddress 10 0 67 0]"
    by simp
  have c: "words (IPAddress 10 0 67 1) ! 3 \<noteq> 0 \<and> words (IPAddress 10 0 67 1) ! 2 > (5 - 4) * 64 + 2"
    by simp
  from vm_ip_filter_rule
    [of "[''rennes'']" 5 "[IPAddress 10 0 66 9, IPAddress 10 0 67 1, IPAddress 10 0 67 0]"] a b c
  have d: "IPAddress 10 0 67 1 \<in> set (vm_ip [''rennes''] 5
      [IPAddress 10 0 66 9, IPAddress 10 0 67 1, IPAddress 10 0 67 0])"
    by blast
  with vm_ip_filter_rule
    [of "[''rennes'']" 5 "[IPAddress 10 0 66 9, IPAddress 10 0 67 1, IPAddress 10 0 67 0]"] a
  have e: "words (IPAddress 10 0 67 1) ! 2 > 66" by blast
  have f: "length [''rennes'', ''nancy''] \<noteq> 1" by simp
  have g: "IPAddress 10 0 216 1 \<in> set [IPAddress 10 0 215 1, IPAddress 10 0 216 1]" by simp
  have h: "words (IPAddress 10 0 216 1) ! 3 \<noteq> 0 \<and> words (IPAddress 10 0 216 1) ! 2 \<ge> 216" by simp
  from vm_ip_filter_rule
    [of "[''rennes'', ''nancy'']" 5 "[IPAddress 10 0 215 1, IPAddress 10 0 216 1]"] f g h
  have i: "IPAddress 10 0 216 1 \<in> set (vm_ip [''rennes'', ''nancy''] 5 [IPAddress 10 0 215 1, IPAddress 10 0 216 1])"
    by blast
  from a b d e f g h i show ?thesis by blast
qed

text \<open>
  C5 as stated fails: for one site and VLAN id 8 the threshold is 258, and the address
  10.8.216.1 is kept by the second test although its third octet does not exceed it.
\<close>

theorem vm_ip_single_site_counterexample:
  "length [''rennes''] = 1 \<and>
   IPAddress 10 8 216 1 \<in> set (vm_ip [''rennes''] 8 [IPAddress 10 8 216 1]) \<and>
   \<not> (words (IPAddress 10 8 216 1) ! 2 > (8 - 4) * 64 + 2)"
  by (simp add: vm_ip_def)

lemma fold_min:
  "fold (\<lambda>y m. if ip_value y < ip_value m then y else m) xs x \<in> set (x # xs) \<and>
   (\<forall>z \<in> set (x # xs). ip_value (fold (\<lambda>y m. if ip_value y < ip_value m then y else m) xs x) \<le> ip_value z)"
proof (induction xs arbitrary: x)
  case Nil
  then show ?case by simp
next
  case (Cons a xs)
  from Cons [of "if ip_value a < ip_value x then a else x"] show ?case
    by (auto split: if_splits)
qed

lemma fold_max:
  "fold (\<lambda>y m. if ip_value y > ip_value m then y else m) xs x \<in> set (x # xs) \<and>
   (\<forall>z \<in> set (x # xs). ip_value z \<le> ip_value (fold (\<lambda>y m. if ip_value y > ip_value m then y else m) xs x))"
proof (induction xs arbitrary: x)
  case Nil
  then show ?case by simp
next
  case (Cons a xs)
  from Cons [of "if ip_value a > ip_value x then a else x"] show ?case
    by (auto split: if_splits)
qed

lemma py_min_spec:
  "py_min xs = Inr lo \<Longrightarrow> lo \<in> set xs \<and> (\<forall>z \<in> set xs. ip_value lo \<le> ip_value z)"
  using fold_min by (cases xs) (auto simp: py_min_def simp del: fold_simps)

lemma py_max_spec:
  "py_max xs = Inr hi \<Longrightarrow> hi \<in> set xs \<and> (\<forall>z \<in> set xs. ip_value z \<le> ip_value hi)"
  using fold_max by (cases xs) (auto simp: py_max_def simp del: fold_simps)

lemma dhcp_hosts_fold:
  "fold (\<lambda>(ip, mac) acc. acc @ ''dhcp-host='' @ '':'' @ mac @ '','' @ ip @ [CHR 0x0A]) ip_mac acc =
     acc @ concat (map (\<lambda>(ip, mac). ''dhcp-host=:'' @ mac @ '','' @ ip @ [CHR 0x0A]) ip_mac)"
  by (induction ip_mac arbitrary: acc) auto

text \<open>
  C8 (amended). The configuration has one host line per pair of \<^verbatim>\<open>ip_mac\<close>, binding the
  pair's MAC to its address; the range runs from the smallest to the largest address of the
  filtered pool \<^verbatim>\<open>vm_ip\<close> (all usable addresses, not only those issued), followed by the
  netmask and a lease of 12h; and the router option names the largest address of the pool.
  For a non-empty pool the three strings are produced.
\<close>

theorem dhcp_conf_pool:
  "(pool \<noteq> [] \<longrightarrow> (\<exists>r. dhcp_conf pool ip_mac netmask = Inr r)) \<and>
   (\<forall>rng router hosts. dhcp_conf pool ip_mac netmask = Inr (rng, router, hosts) \<longrightarrow>
      hosts = concat (map (\<lambda>(ip, mac). ''dhcp-host=:'' @ mac @ '','' @ ip @ [CHR 0x0A]) ip_mac) \<and>
      (\<exists>lo hi. lo \<in> set pool \<and> hi \<in> set pool \<and>
         (\<forall>x \<in> set pool. ip_value lo \<le> ip_value x \<and> ip_value x \<le> ip_value hi) \<and>
         rng = ''dhcp-range='' @ str_ip lo @ '','' @ str_ip hi @ '','' @ netmask @ '',12h'' @ [CHR 0x0A] \<and>
         router = ''dhcp-option=option:router,'' @ str_ip hi @ [CHR 0x0A]))"
proof (rule conjI)
  show "pool \<noteq> [] \<longrightarrow> (\<exists>r. dhcp_conf pool ip_mac netmask = Inr r)"
    by (cases pool) (simp_all add: dhcp_conf_def py_min_def py_max_def bind_err_def)
next
  show "\<forall>rng router hosts. dhcp_conf pool ip_mac netmask = Inr (rng, router, hosts) \<longrightarrow>
      hosts = concat (map (\<lambda>(ip, mac). ''dhcp-host=:'' @ mac @ '','' @ ip @ [CHR 0x0A]) ip_mac) \<and>
      (\<exists>lo hi. lo \<in> set pool \<and> hi \<in> set pool \<and>
         (\<forall>x \<in> set pool. ip_value lo \<le> ip_value x \<and> ip_value x \<le> ip_value hi) \<and>
         rng = ''dhcp-range='' @ str_ip lo @ '','' @ str_ip hi @ '','' @ netmask @ '',12h'' @ [CHR 0x0A] \<and>
         router = ''dhcp-option=option:router,'' @ str_ip hi @ [CHR 0x0A])"
  proof (intro allI impI)
    fix rng router hosts
    assume r: "dhcp_conf pool ip_mac netmask = Inr (rng, router, hosts)"
    then obtain lo hi where lo: "py_min pool = Inr lo" and hi: "py_max pool = Inr hi" and
      e: "rng = ''dhcp-range='' @ str_ip lo @ '','' @ str_ip hi @ '','' @ netmask @ '',12h'' @ [CHR 0x0A]"
         "router = ''dhcp-option=option:router,'' @ str_ip hi @ [CHR 0x0A]"
         "hosts = dhcp_hosts ip_mac"
      by (auto simp: dhcp_conf_def bind_err_def split: sum.splits)
    have h: "hosts = concat (map (\<lambda>(ip, mac). ''dhcp-host=:'' @ mac @ '','' @ ip @ [CHR 0x0A]) ip_mac)"
      unfolding e(3) dhcp_hosts_def using dhcp_hosts_fold [of ip_mac "[]"] by simp
    from py_min_spec [OF lo] py_max_spec [OF hi] e(1,2)
    have "lo \<in> set pool \<and> hi \<in> set pool \<and>
         (\<forall>x \<in> set pool. ip_value lo \<le> ip_value x \<and> ip_value x \<le> ip_value hi) \<and>
         rng = ''dhcp-range='' @ str_ip lo @ '','' @ str_ip hi @ '','' @ netmask @ '',12h'' @ [CHR 0x0A] \<and>
         router = ''dhcp-option=option:router,'' @ str_ip hi @ [CHR 0x0A]"
      by blast
    with h show "hosts = concat (map (\<lambda>(ip, mac). ''dhcp-host=:'' @ mac @ '','' @ ip @ [CHR 0x0A]) ip_mac) \<and>
      (\<exists>lo hi. lo \<in> set pool \<and> hi \<in> set pool \<and>
         (\<forall>x \<in> set pool. ip_value lo \<le> ip_value x \<and> ip_value x \<le> ip_value hi) \<and>
         rng = ''dhcp-range='' @ str_ip lo @ '','' @ str_ip hi @ '','' @ netmask @ '',12h'' @ [CHR 0x0A] \<and>
         router = ''dhcp-option=option:router,'' @ str_ip hi @ [CHR 0x0A])"
      by blast
  qed
qed

lemma demo_dhcp:
  "dhcp_conf [IPAddress 10 0 67 1, IPAddress 10 0 67 2] [(''10.0.67.1'', ''00:20:4e:00:00:00'')]
     ''255.255.252.0''
   = Inr (''dhcp-range=10.0.67.1,10.0.67.2,255.255.252.0,12h'' @ [CHR 0x0A],
          ''dhcp-option=option:router,10.0.67.2'' @ [CHR 0x0A],
          ''dhcp-host=:00:20:4e:00:00:00,10.0.67.1'' @ [CHR 0x0A])"
  by (simp add: dhcp_conf_def py_min_def py_max_def bind_err_def dhcp_hosts_def demo_strs
      del: str_ip.simps)

theorem dhcp_conf_pool_witness:
  "[IPAddress 10 0 67 1, IPAddress 10 0 67 2] \<noteq> [] \<and>
   dhcp_conf [IPAddress 10 0 67 1, IPAddress 10 0 67 2] [(''10.0.67.1'', ''00:20:4e:00:00:00'')]
     ''255.255.252.0''
   = Inr (''dhcp-range=10.0.67.1,10.0.67.2,255.255.252.0,12h'' @ [CHR 0x0A],
          ''dhcp-option=option:router,10.0.67.2'' @ [CHR 0x0A],
          ''dhcp-host=:00:20:4e:00:00:00,10.0.67.1'' @ [CHR 0x0A]) \<and>
   ''dhcp-host=:00:20:4e:00:00:00,10.0.67.1'' @ [CHR 0x0A]
   = concat (map (\<lambda>(ip, mac). ''dhcp-host=:'' @ mac @ '','' @ ip @ [CHR 0x0A])
        [(''10.0.67.1'', ''00:20:4e:00:00:00'')])"
proof -
  from dhcp_conf_pool
    [of "[IPAddress 10 0 67 1, IPAddress 10 0 67 2]" "[(''10.0.67.1'', ''00:20:4e:00:00:00'')]"
        "''255.255.252.0''"] demo_dhcp
  have "''dhcp-host=:00:20:4e:00:00:00,10.0.67.1'' @ [CHR 0x0A]
   = concat (map (\<lambda>(ip, mac). ''dhcp-host=:'' @ mac @ '','' @ ip @ [CHR 0x0A])
        [(''10.0.67.1'', ''00:20:4e:00:00:00'')])"
    by blast
  with demo_dhcp show ?thesis by blast
qed

text \<open>
  C8 as stated fails: with a pool of two addresses and one VM, one address is issued,
  10.0.67.1, but the range ends at, and the router option names, 10.0.67.2.
\<close>

theorem dhcp_router_counterexample:
  "network_identity twice_rnd [IPAddress 10 0 67 1, IPAddress 10 0 67 2] [''rennes''] 5 1
     = Some (Inr ([IPAddress 10 0 67 1, IPAddress 10 0 67 2],
                  [(''10.0.67.1'', ''00:20:4e:00:00:00'')], [[0, 0x20, 0x4e, 0, 0, 0]])) \<and>
   dhcp_conf [IPAddress 10 0 67 1, IPAddress 10 0 67 2] [(''10.0.67.1'', ''00:20:4e:00:00:00'')]
     ''255.255.252.0''
   = Inr (''dhcp-range=10.0.67.1,10.0.67.2,255.255.252.0,12h'' @ [CHR 0x0A],
          ''dhcp-option=option:router,10.0.67.2'' @ [CHR 0x0A],
          ''dhcp-host=:00:20:4e:00:00:00,10.0.67.1'' @ [CHR 0x0A]) \<and>
   spec_dhcp_router (slice_to [IPAddress 10 0 67 1, IPAddress 10 0 67 2] 1)
   = Inr (''dhcp-option=option:router,10.0.67.1'' @ [CHR 0x0A])"
proof -
  have "network_identity twice_rnd [IPAddress 10 0 67 1, IPAddress 10 0 67 2] [''rennes''] 5 1
     = Some (Inr ([IPAddress 10 0 67 1, IPAddress 10 0 67 2],
                  [(''10.0.67.1'', ''00:20:4e:00:00:00'')], [[0, 0x20, 0x4e, 0, 0, 0]]))"
    by (simp add: network_identity_def vm_ip_def slice_to_def gen_mac_def regenerate.simps
        twice_rnd_def demo_strs del: str_ip.simps)
  moreover have "spec_dhcp_router (slice_to [IPAddress 10 0 67 1, IPAddress 10 0 67 2] 1)
   = Inr (''dhcp-option=option:router,10.0.67.1'' @ [CHR 0x0A])"
    by (simp add: spec_dhcp_router_def slice_to_def py_max_def bind_err_def demo_strs
        del: str_ip.simps)
  ultimately show ?thesis using demo_dhcp by blast
qed

subsection \<open>Topology reconciliation\<close>

lemma check_hosts_present:
  "set ids \<subseteq> set tmp \<Longrightarrow> check_hosts tmp ids = Inr (ids, tmp)"
  by (induction ids) auto

lemma check_hosts_result_subset:
  "check_hosts tmp ids = Inr (ids', tmp') \<Longrightarrow> set ids' \<subseteq> set tmp"
proof (induction ids arbitrary: tmp ids' tmp')
  case Nil
  then show ?case by simp
next
  case (Cons hid rest)
  show ?case
  proof (cases "hid \<in> set tmp")
    case True
    with Cons.prems obtain r where r: "check_hosts tmp rest = Inr (r, tmp')" "ids' = hid # r"
      by (auto split: sum.splits)
    from Cons.IH [OF r(1)] True r(2) show ?thesis by simp
  next
    case False
    with Cons.prems obtain t ts r where
      f: "filter (\<lambda>h. py_in (split_first CHR ''-'' hid) h) tmp = t # ts" and
      r: "check_hosts (remove1 t tmp) rest = Inr (r, tmp')" "ids' = t # r"
      by (auto split: sum.splits list.splits)
    from f have "t \<in> set (filter (\<lambda>h. py_in (split_first CHR ''-'' hid) h) tmp)" by simp
    then have t: "t \<in> set tmp" by simp
    from Cons.IH [OF r(1)] have "set r \<subseteq> set tmp"
      using set_remove1_subset by fastforce
    with t r(2) show ?thesis by simp
  qed
qed

text \<open>
  C9. The matcher is idempotent: on a topology whose every host identifier is already in
  the concrete host set it returns the identifiers unchanged, and after any successful run
  a second run on the rewritten topology changes nothing.
\<close>

theorem topology_matcher_idempotent:
  "(set ids \<subseteq> set (tmp_hosts hosts) \<longrightarrow> topology_matcher hosts ids = Inr ids) \<and>
   (\<forall>ids'. topology_matcher hosts ids = Inr ids' \<longrightarrow> topology_matcher hosts ids' = Inr ids')"
proof (intro conjI allI impI)
  assume "set ids \<subseteq> set (tmp_hosts hosts)"
  then show "topology_matcher hosts ids = Inr ids"
    by (simp add: topology_matcher_def check_hosts_present)
next
  fix ids'
  assume "topology_matcher hosts ids = Inr ids'"
  then obtain tmp' where "check_hosts (tmp_hosts hosts) ids = Inr (ids', tmp')"
    by (cases "check_hosts (tmp_hosts hosts) ids") (auto simp: topology_matcher_def)
  then have "set ids' \<subseteq> set (tmp_hosts hosts)"
    by (rule check_hosts_result_subset)
  then show "topology_matcher hosts ids' = Inr ids'"
    by (simp add: topology_matcher_def check_hosts_present)
qed

theorem topology_matcher_idempotent_witness:
  "set [''clusterA-1'', ''clusterA-2''] \<subseteq>
     set (tmp_hosts [''clusterA-1.site.grid5000.fr'', ''clusterA-2.site.grid5000.fr'']) \<and>
   topology_matcher [''clusterA-1.site.grid5000.fr'', ''clusterA-2.site.grid5000.fr'']
     [''clusterA-1'', ''clusterA-2''] = Inr [''clusterA-1'', ''clusterA-2''] \<and>
   topology_matcher [''clusterA-1.site.grid5000.fr'', ''clusterA-2.site.grid5000.fr'']
     [''clusterA-99'', ''clusterA-2''] = Inr [''clusterA-1'', ''clusterA-2'']"
proof -
  have h: "set [''clusterA-1'', ''clusterA-2''] \<subseteq>
     set (tmp_hosts [''clusterA-1.site.grid5000.fr'', ''clusterA-2.site.grid5000.fr''])"
    by (simp add: tmp_hosts_def split_first_def)
  have r: "topology_matcher [''clusterA-1.site.grid5000.fr'', ''clusterA-2.site.grid5000.fr'']
     [''clusterA-99'', ''clusterA-2''] = Inr [''clusterA-1'', ''clusterA-2'']"
    by (simp add: topology_matcher_def tmp_hosts_def split_first_def)
  from topology_matcher_idempotent
    [of "[''clusterA-1'', ''clusterA-2'']"
        "[''clusterA-1.site.grid5000.fr'', ''clusterA-2.site.grid5000.fr'']"] h
  have c: "topology_matcher [''clusterA-1.site.grid5000.fr'', ''clusterA-2.site.grid5000.fr'']
     [''clusterA-1'', ''clusterA-2''] = Inr [''clusterA-1'', ''clusterA-2'']"
    by blast
  from topology_matcher_idempotent
    [of "[''clusterA-99'', ''clusterA-2'']"
        "[''clusterA-1.site.grid5000.fr'', ''clusterA-2.site.grid5000.fr'']"] r
  have "topology_matcher [''clusterA-1.site.grid5000.fr'', ''clusterA-2.site.grid5000.fr'']
     [''clusterA-1'', ''clusterA-2''] = Inr [''clusterA-1'', ''clusterA-2'']"
    by blast
  with h c r show ?thesis by blast
qed

text \<open>
  The scenario of the specification: two logical hosts of clusterA that are not among the
  concrete hosts are rewritten to the first and then to the second concrete host of
  clusterA; a third one finds no candidate and the matcher raises IndexError.
\<close>

lemma topology_matcher_scenario:
  "topology_matcher [''clusterA-1.site.grid5000.fr'', ''clusterA-2.site.grid5000.fr'']
     [''clusterA-99'', ''clusterA-98''] = Inr [''clusterA-1'', ''clusterA-2''] \<and>
   topology_matcher [''clusterA-1.site.grid5000.fr'', ''clusterA-2.site.grid5000.fr'']
     [''clusterA-99'', ''clusterA-98'', ''clusterA-97''] = Inl IndexError"
  by (simp add: topology_matcher_def tmp_hosts_def split_first_def)

text \<open>
  C7, at a failing input. The test \<^verbatim>\<open>host_el.get('id').split('-')[0] in h\<close> is a substring
  test on the host name, not a comparison of cluster names. With the concrete hosts
  parasol-1 and sol-1 (sorted, as \<^verbatim>\<open>hosts.sort()\<close> leaves them) the logical host sol-9 is
  rewritten to parasol-1, a host of another cluster, although the unclaimed host sol-1 has
  the cluster name of sol-9.
\<close>

theorem topology_matcher_wrong_cluster:
  "topology_matcher [''parasol-1.rennes.grid5000.fr'', ''sol-1.sophia.grid5000.fr''] [''sol-9'']
     = Inr [''parasol-1''] \<and>
   split_first CHR ''-'' ''parasol-1'' \<noteq> split_first CHR ''-'' ''sol-9'' \<and>
   split_first CHR ''-'' ''sol-1'' = split_first CHR ''-'' ''sol-9''"
  by (simp add: topology_matcher_def tmp_hosts_def split_first_def)

end
